theory Spec2Isabelle
  imports Main "HOL-Library.Word" "HOL-Library.Signed_Division"
begin

unbundle bit_operations_syntax

section \<open>C arithmetic of andor.c\<close>

text \<open>
  The interface is built for the LP64, little-endian hosts the camera SDK exists for:
  \<open>long\<close>, \<open>ptrdiff_t\<close> and \<open>size_t\<close> have 64 bits. A \<open>long\<close> is an \<open>int\<close>
  here and every \<open>long\<close> operation of the buffer arithmetic writes out the reduction
  into the 64-bit two's-complement range; division truncates towards zero. A pointer is
  represented by its \<open>ptrdiff_t\<close> value, \<open>NULL\<close> is 0.
\<close>

definition LONG_MAX :: int where
  "LONG_MAX = 2 ^ 63 - 1"

definition wrap_long :: "int \<Rightarrow> int" where
  "wrap_long x = (x + 2 ^ 63) mod 2 ^ 64 - 2 ^ 63"

definition add_long :: "int \<Rightarrow> int \<Rightarrow> int" where
  "add_long a b = wrap_long (a + b)"

definition mul_long :: "int \<Rightarrow> int \<Rightarrow> int" where
  "mul_long a b = wrap_long (a * b)"

definition div_long :: "int \<Rightarrow> int \<Rightarrow> int" where
  "div_long a b = wrap_long (a sdiv b)"

definition to_size :: "int \<Rightarrow> int" where
  "to_size x = x mod 2 ^ 64"

definition NULL :: int where
  "NULL = 0"

definition FRAME_ALIGN :: int where
  "FRAME_ALIGN = 8"

text \<open>\<^verbatim>\<open>#define ROUND_UP(a, b) ((((b) - 1 + (a))/(b))*(b))\<close> at type \<open>long\<close>
  (or \<open>ptrdiff_t\<close>), and at type \<open>size_t\<close> as \<open>check_frame\<close> uses it.\<close>

definition ROUND_UP :: "int \<Rightarrow> int \<Rightarrow> int" where
  "ROUND_UP a b = mul_long (div_long (add_long (b - 1) a) b) b"

definition ROUND_UP_size :: "int \<Rightarrow> int \<Rightarrow> int" where
  "ROUND_UP_size a b = to_size (to_size (to_size (b - 1 + a) div b) * b)"

text \<open>The mathematical rounding the specification speaks of: the least multiple of \<open>b\<close>
  that is not below \<open>a\<close>.\<close>

definition round_up :: "int \<Rightarrow> int \<Rightarrow> int" where
  "round_up a b = ((a + b - 1) div b) * b"

text \<open>The total size that the specification requires of the pool, for frames of
  \<open>fsize\<close> bytes and a queue of \<open>qlen\<close> slots.\<close>

definition required_size :: "int \<Rightarrow> int \<Rightarrow> int" where
  "required_size fsize qlen = 7 + round_up fsize 8 * qlen"

section \<open>The camera SDK and the Yorick runtime\<close>

text \<open>
  Modelled from the spec: \<open>atcore.h\<close> is not part of the sources, so the return codes
  are kept symbolic, one constructor for each code that \<open>get_reason\<close> names and
  \<open>AT_OTHER\<close> for every other number.
\<close>

datatype at_code =
    AT_SUCCESS
  | AT_ERR_NOTINITIALISED
  | AT_ERR_NOTIMPLEMENTED
  | AT_ERR_READONLY
  | AT_ERR_NOTREADABLE
  | AT_ERR_NOTWRITABLE
  | AT_ERR_OUTOFRANGE
  | AT_ERR_INDEXNOTAVAILABLE
  | AT_ERR_INDEXNOTIMPLEMENTED
  | AT_ERR_EXCEEDEDMAXSTRINGLENGTH
  | AT_ERR_CONNECTION
  | AT_ERR_NODATA
  | AT_ERR_INVALIDHANDLE
  | AT_ERR_TIMEDOUT
  | AT_OTHER int

text \<open>Modelled from the spec: the value of \<open>AT_INFINITE\<close> comes from \<open>atcore.h\<close>; it
  stands for "wait indefinitely".\<close>

definition AT_INFINITE :: int where
  "AT_INFINITE = 4294967295"

fun get_reason :: "at_code \<Rightarrow> string" where
  "get_reason AT_SUCCESS = ''AT_SUCCESS''"
| "get_reason AT_ERR_NOTINITIALISED = ''AT_ERR_NOTINITIALISED''"
| "get_reason AT_ERR_NOTIMPLEMENTED = ''AT_ERR_NOTIMPLEMENTED''"
| "get_reason AT_ERR_READONLY = ''AT_ERR_READONLY''"
| "get_reason AT_ERR_NOTREADABLE = ''AT_ERR_NOTREADABLE''"
| "get_reason AT_ERR_NOTWRITABLE = ''AT_ERR_NOTWRITABLE''"
| "get_reason AT_ERR_OUTOFRANGE = ''AT_ERR_OUTOFRANGE''"
| "get_reason AT_ERR_INDEXNOTAVAILABLE = ''AT_ERR_INDEXNOTAVAILABLE''"
| "get_reason AT_ERR_INDEXNOTIMPLEMENTED = ''AT_ERR_INDEXNOTIMPLEMENTED''"
| "get_reason AT_ERR_EXCEEDEDMAXSTRINGLENGTH = ''AT_ERR_EXCEEDEDMAXSTRINGLENGTH''"
| "get_reason AT_ERR_CONNECTION = ''AT_ERR_CONNECTION''"
| "get_reason AT_ERR_NODATA = ''AT_ERR_NODATA''"
| "get_reason AT_ERR_INVALIDHANDLE = ''AT_ERR_INVALIDHANDLE''"
| "get_reason AT_ERR_TIMEDOUT = ''AT_ERR_TIMEDOUT''"
| "get_reason (AT_OTHER n) = ''Unknown code''"

type_synonym u8 = "8 word"

text \<open>The function pointer \<open>cam->extract\<close> is one of the eleven decoders of the
  pixel-encoding table (\<open>None\<close> is the null pointer).\<close>

datatype extractor =
    Extract_Raw
  | Extract_Mono8
  | Extract_Mono12Packed
  | Extract_Mono12
  | Extract_Mono16
  | Extract_Mono32
  | Extract_RGB8Packed
  | Extract_Mono12Coded
  | Extract_Mono12codedPacked
  | Extract_Mono12parallel
  | Extract_Mono12PackedParallel

record camera =
  handle :: int
  device :: int
  initialized :: bool
  acquiring :: bool
  buffer :: int
  buffer_size :: int
  queue_length :: int
  frame_size :: int
  frame_width :: int
  frame_height :: int
  row_stride :: int
  extract_fn :: "extractor option"

text \<open>
  Every call that leaves the file is recorded: the SDK functions, and \<open>p_malloc\<close> and
  \<open>p_free\<close> of the Yorick runtime. The handle argument is \<open>cam->handle\<close> throughout
  and is not repeated in the call.
\<close>

datatype sdk_call =
    AT_Flush
  | AT_QueueBuffer int int
  | AT_WaitBuffer int
  | AT_Command string
  | AT_SetEnumString string string
  | AT_GetInt string
  | AT_IsImplemented string
  | AT_GetEnumIndex string
  | AT_GetEnumStringByIndex string int int
  | AT_Close
  | P_malloc int
  | P_free int

text \<open>
  What a call gives back: the return code and the values written through the output
  parameters (\<open>rdata\<close> is the memory readable from the frame pointer that
  \<open>AT_WaitBuffer\<close> returns; \<open>rstr\<close> is the wide string, a list of \<open>wchar_t\<close>
  values without the terminator). For \<open>p_malloc\<close> the pointer is \<open>rptr\<close> and
  \<open>rdata\<close> the bytes that the new block happens to hold.

  Modelled from the spec: \<open>p_malloc\<close> belongs to the Yorick runtime, which is not
  part of the sources; an allocation failure propagates as an out-of-memory error, which
  is a reply whose code is not \<open>AT_SUCCESS\<close>.
\<close>

record reply =
  rc :: at_code
  rint :: int
  rbool :: bool
  rstr :: "int list"
  rptr :: int
  rdata :: "u8 list"

text \<open>
  The trace holds, in order, every outside call together with the camera structure as
  it is in memory when the call is made, and every line written to \<open>stderr\<close>.
\<close>

datatype event =
    Call sdk_call camera
  | Warn string
  | Print string

text \<open>The outside world is any function from the history and the call to a reply.\<close>

type_synonym sdk = "event list \<Rightarrow> sdk_call \<Rightarrow> reply"

text \<open>The \<open>static int warn\<close> of each fallback decoder is \<open>warn_flag\<close>. The blocks
  that the allocator has handed out and that are not yet given back are in \<open>heap\<close>, at
  their base address, with the bytes that they hold: those that the block had when it was
  allocated, as long as the program stores nothing into it. What the SDK stores into a
  queued buffer reaches the program through the reply of \<open>AT_WaitBuffer\<close>.\<close>

record state =
  cam :: camera
  trace :: "event list"
  warn_flag :: "extractor \<Rightarrow> bool"
  heap :: "int \<Rightarrow> u8 list option"

text \<open>\<open>y_error\<close> does not return (it jumps back to the interpreter); \<open>Fault\<close> is
  undefined behaviour of C: an access outside the object, or a division by zero.\<close>

datatype error = Y_error string | Fault

text \<open>Arrays pushed on the Yorick stack: element type, dimension list and the bytes of
  the array in memory.\<close>

datatype ytype = Y_char | Y_short | Y_int

datatype yvalue = Y_nil | Y_array ytype "int list" "u8 list"

type_synonym 'a act = "state \<Rightarrow> (error + 'a) \<times> state"

definition ret :: "'a \<Rightarrow> 'a act" where
  "ret x s = (Inr x, s)"

definition bindE :: "'a act \<Rightarrow> ('a \<Rightarrow> 'b act) \<Rightarrow> 'b act" where
  "bindE m f s = (case m s of (Inl e, s1) \<Rightarrow> (Inl e, s1) | (Inr x, s1) \<Rightarrow> f x s1)"

definition get_cam :: "camera act" where
  "get_cam s = (Inr (cam s), s)"

definition modify_cam :: "(camera \<Rightarrow> camera) \<Rightarrow> unit act" where
  "modify_cam f s = (Inr (), s\<lparr>cam := f (cam s)\<rparr>)"

definition modify_heap :: "((int \<Rightarrow> u8 list option) \<Rightarrow> (int \<Rightarrow> u8 list option)) \<Rightarrow> unit act" where
  "modify_heap f s = (Inr (), s\<lparr>heap := f (heap s)\<rparr>)"

definition call :: "sdk \<Rightarrow> sdk_call \<Rightarrow> reply act" where
  "call dev c s = (Inr (dev (trace s) c), s\<lparr>trace := trace s @ [Call c (cam s)]\<rparr>)"

definition warning :: "string \<Rightarrow> unit act" where
  "warning message s = (Inr (), s\<lparr>trace := trace s @ [Warn message]\<rparr>)"

definition fprintf_stderr :: "string \<Rightarrow> unit act" where
  "fprintf_stderr text s = (Inr (), s\<lparr>trace := trace s @ [Print text]\<rparr>)"

definition y_error :: "string \<Rightarrow> 'a act" where
  "y_error message s = (Inl (Y_error message), s)"

definition fault :: "'a act" where
  "fault s = (Inl Fault, s)"

definition throw :: "string \<Rightarrow> at_code \<Rightarrow> unit act" where
  "throw descr code =
     (if code \<noteq> AT_SUCCESS
      then y_error (''failure in '' @ descr @ '' ('' @ get_reason code @ '')'')
      else ret ())"

definition p_malloc :: "sdk \<Rightarrow> int \<Rightarrow> int act" where
  "p_malloc dev n =
     bindE (call dev (P_malloc n)) (\<lambda>r.
       if rc r \<noteq> AT_SUCCESS then y_error ''memory manager failed''
       else bindE (modify_heap (\<lambda>h. h(rptr r \<mapsto> rdata r))) (\<lambda>_. ret (rptr r)))"

definition p_free :: "sdk \<Rightarrow> int \<Rightarrow> unit act" where
  "p_free dev p =
     bindE (call dev (P_free p)) (\<lambda>r. modify_heap (\<lambda>h. h(p := None)))"

text \<open>Decimal output of \<open>%d\<close> and \<open>%ld\<close>.\<close>

fun show_nat :: "nat \<Rightarrow> string" where
  "show_nat n =
     (if n < 10 then [char_of (48 + n)]
      else show_nat (n div 10) @ [char_of (48 + n mod 10)])"

definition show_int :: "int \<Rightarrow> string" where
  "show_int i = (if i < 0 then CHR ''-'' # show_nat (nat (- i)) else show_nat (nat i))"

section \<open>Frame geometry and pixel encoding\<close>

text \<open>Wide strings are lists of \<open>wchar_t\<close> values without the terminator; \<open>L\<close> is
  the wide literal of an ASCII string.\<close>

type_synonym wstring = "int list"

definition L :: "string \<Rightarrow> wstring" where
  "L str = map of_char str"

definition get_frame_width :: "sdk \<Rightarrow> int act" where
  \<open>get_frame_width dev =
     bindE (call dev (AT_IsImplemented ''AOI Width'')) (\<lambda>r.
     bindE (throw ''AT_IsImplemented "AOI Width"'' (rc r)) (\<lambda>_.
     bindE (call dev (AT_GetInt (if rbool r then ''AOI Width'' else ''Sensor Width''))) (\<lambda>g.
     bindE (throw (if rbool r then ''AT_GetInt "AOI Width"''
                   else ''AT_GetInt "Sensor Width"'') (rc g)) (\<lambda>_.
     if rint g < 0 \<or> rint g > LONG_MAX then y_error ''invalid frame width''
     else ret (rint g)))))\<close>

definition get_frame_height :: "sdk \<Rightarrow> int act" where
  \<open>get_frame_height dev =
     bindE (call dev (AT_IsImplemented ''AOI Height'')) (\<lambda>r.
     bindE (throw ''AT_IsImplemented "AOI Height"'' (rc r)) (\<lambda>_.
     bindE (call dev (AT_GetInt (if rbool r then ''AOI Height'' else ''Sensor Height''))) (\<lambda>g.
     bindE (throw (if rbool r then ''AT_GetInt "AOI Height"''
                   else ''AT_GetInt "Sensor Height"'') (rc g)) (\<lambda>_.
     if rint g < 0 \<or> rint g > LONG_MAX then y_error ''invalid frame height''
     else ret (rint g)))))\<close>

definition get_frame_size :: "sdk \<Rightarrow> int act" where
  \<open>get_frame_size dev =
     bindE (call dev (AT_GetInt ''ImageSizeBytes'')) (\<lambda>g.
     bindE (throw ''AT_GetInt "ImageSizeBytes"'' (rc g)) (\<lambda>_.
     if rint g < 0 \<or> rint g > LONG_MAX then y_error ''invalid frame size''
     else ret (rint g)))\<close>

definition get_row_stride :: "sdk \<Rightarrow> int act" where
  \<open>get_row_stride dev =
     bindE (call dev (AT_GetInt ''AOIStride'')) (\<lambda>g.
     bindE (throw ''AT_GetInt "AOIStride"'' (rc g)) (\<lambda>_.
     if rint g < 0 \<or> rint g > LONG_MAX then y_error ''invalid row stride''
     else ret (rint g)))\<close>

definition PIXEL_ENCODING_MAXLEN :: nat where
  "PIXEL_ENCODING_MAXLEN = 63"

text \<open>The rows of \<open>pixel_encoding_table\<close> before the null row: name and decoder (the
  wide name of a row is \<open>L\<close> of its name).\<close>

definition pixel_encoding_table :: "(string \<times> extractor) list" where
  "pixel_encoding_table =
     [(''Raw'', Extract_Raw),
      (''Mono8'', Extract_Mono8),
      (''Mono12Packed'', Extract_Mono12Packed),
      (''Mono12'', Extract_Mono12),
      (''Mono16'', Extract_Mono16),
      (''Mono32'', Extract_Mono32),
      (''RGB8Packed'', Extract_RGB8Packed),
      (''Mono12Coded'', Extract_Mono12Coded),
      (''Mono12codedPacked'', Extract_Mono12codedPacked),
      (''Mono12parallel'', Extract_Mono12parallel),
      (''Mono12PackedParallel'', Extract_Mono12PackedParallel)]"

text \<open>\<open>w[0]\<close> of a wide C string: the terminator when the string is empty.\<close>

fun first_wchar :: "wstring \<Rightarrow> int" where
  "first_wchar [] = 0"
| "first_wchar (c # cs) = c"

text \<open>The search loop of \<open>get_pixel_encoding\<close>, from row \<open>i\<close> on.\<close>

fun table_search :: "(string \<times> extractor) list \<Rightarrow> int \<Rightarrow> wstring \<Rightarrow> int" where
  "table_search [] i pixel_encoding = - 1"
| "table_search (row # rows) i pixel_encoding =
     (if first_wchar (L (fst row)) = first_wchar pixel_encoding \<and> L (fst row) = pixel_encoding
      then i
      else table_search rows (i + 1) pixel_encoding)"

definition get_pixel_encoding :: "sdk \<Rightarrow> int act" where
  \<open>get_pixel_encoding dev =
     bindE (call dev (AT_GetEnumIndex ''PixelEncoding'')) (\<lambda>r.
     bindE (throw ''AT_GetEnumIndex "PixelEncoding"'' (rc r)) (\<lambda>_.
     bindE (call dev (AT_GetEnumStringByIndex ''PixelEncoding'' (rint r)
                        (int PIXEL_ENCODING_MAXLEN + 1))) (\<lambda>e.
     bindE (throw ''AT_GetEnumStringByIndex "PixelEncoding"'' (rc e)) (\<lambda>_.
     ret (table_search pixel_encoding_table 0 (take PIXEL_ENCODING_MAXLEN (rstr e)))))))\<close>

section \<open>Starting and stopping the acquisition\<close>

text \<open>\<^verbatim>\<open>#define FIRST_FRAME(cam) ((unsigned char*)ROUND_UP((ptrdiff_t)(cam)->buffer, FRAME_ALIGN))\<close>\<close>

definition FIRST_FRAME :: "camera \<Rightarrow> int" where
  "FIRST_FRAME c = ROUND_UP (buffer c) FRAME_ALIGN"

text \<open>\<open>start_acquisition\<close>, block "Determine pixel format."\<close>

definition start_pixel_format :: "sdk \<Rightarrow> unit act" where
  "start_pixel_format dev =
     bindE (get_pixel_encoding dev) (\<lambda>enc.
       if enc = - 1 then
         bindE (warning ''Unknown pixel encoding.'') (\<lambda>_.
         modify_cam (\<lambda>c. c\<lparr>extract_fn := Some Extract_Raw\<rparr>))
       else
         modify_cam (\<lambda>c. c\<lparr>extract_fn := Some (snd (pixel_encoding_table ! nat enc))\<rparr>))"

text \<open>\<open>start_acquisition\<close>, block "Create queue of frame buffers.": the four queries
  that freeze the geometry.\<close>

definition start_geometry :: "sdk \<Rightarrow> unit act" where
  "start_geometry dev =
     bindE (get_frame_size dev) (\<lambda>v.
     bindE (modify_cam (\<lambda>c. c\<lparr>frame_size := v\<rparr>)) (\<lambda>_.
     bindE (get_frame_width dev) (\<lambda>v.
     bindE (modify_cam (\<lambda>c. c\<lparr>frame_width := v\<rparr>)) (\<lambda>_.
     bindE (get_frame_height dev) (\<lambda>v.
     bindE (modify_cam (\<lambda>c. c\<lparr>frame_height := v\<rparr>)) (\<lambda>_.
     bindE (get_row_stride dev) (\<lambda>v.
     modify_cam (\<lambda>c. c\<lparr>row_stride := v\<rparr>))))))))"

text \<open>The rest of that block, for the local \<open>buffer_size\<close>: the existing buffer is kept
  when it has the size wanted, and otherwise freed after the members are reset; then a
  buffer is allocated unless one of the right size is there.\<close>

definition start_buffer :: "sdk \<Rightarrow> int \<Rightarrow> unit act" where
  "start_buffer dev bsize =
     bindE get_cam (\<lambda>c.
     bindE (if buffer c \<noteq> NULL \<and> buffer_size c > 0 then
              (if bsize \<noteq> buffer_size c then
                 bindE (modify_cam (\<lambda>c. c\<lparr>buffer := NULL, buffer_size := 0\<rparr>)) (\<lambda>_.
                 p_free dev (buffer c))
               else ret ())
            else modify_cam (\<lambda>c. c\<lparr>buffer := NULL, buffer_size := 0\<rparr>)) (\<lambda>_.
     bindE get_cam (\<lambda>c1.
     if bsize \<noteq> buffer_size c1 then
       bindE (p_malloc dev bsize) (\<lambda>p.
       modify_cam (\<lambda>c. c\<lparr>buffer := p, buffer_size := bsize\<rparr>))
     else ret ())))"

text \<open>Block "Queue the buffers.": the loop, from counter \<open>k\<close> and pointer
  \<open>frame_ptr\<close> on.\<close>

function queue_loop :: "sdk \<Rightarrow> int \<Rightarrow> int \<Rightarrow> int \<Rightarrow> unit act" where
  "queue_loop dev k frame_ptr frame_stride s =
     (if k < queue_length (cam s) then
        (case call dev (AT_QueueBuffer frame_ptr (frame_size (cam s))) s of
           (Inl e, s1) \<Rightarrow> (Inl e, s1)
         | (Inr r, s1) \<Rightarrow>
             if rc r \<noteq> AT_SUCCESS then
               bindE (call dev AT_Flush) (\<lambda>_. throw ''AT_QueueBuffer'' (rc r)) s1
             else queue_loop dev (k + 1) (add_long frame_ptr frame_stride) frame_stride s1)
      else (Inr (), s))"
  by pat_completeness auto
termination
  by (relation "measure (\<lambda>(dev, k, frame_ptr, frame_stride, s). nat (queue_length (cam s) - k))")
     (auto simp: call_def)

text \<open>Blocks "Set the camera to continuously acquires frames." and "Start the
  acquisition."\<close>

definition start_cycle_mode :: "sdk \<Rightarrow> unit act" where
  \<open>start_cycle_mode dev =
     bindE (call dev (AT_SetEnumString ''CycleMode'' ''Continuous'')) (\<lambda>r.
       if rc r \<noteq> AT_SUCCESS then
         bindE (call dev AT_Flush) (\<lambda>_.
         throw ''AT_SetEnumString "CycleMode" "Continuous"'' (rc r))
       else ret ())\<close>

definition start_command :: "sdk \<Rightarrow> unit act" where
  \<open>start_command dev =
     bindE (call dev (AT_Command ''AcquisitionStart'')) (\<lambda>r.
     bindE (if rc r \<noteq> AT_SUCCESS then
              bindE (call dev AT_Flush) (\<lambda>_.
              throw ''AT_Command "AcquisitionStart"'' (rc r))
            else ret ()) (\<lambda>_.
     modify_cam (\<lambda>c. c\<lparr>acquiring := True\<rparr>)))\<close>

definition start_acquisition :: "sdk \<Rightarrow> unit act" where
  "start_acquisition dev =
     bindE get_cam (\<lambda>c.
     if acquiring c then warning ''Camera already acquiring.''
     else if queue_length c \<le> 0 then y_error ''set queue length first''
     else
       bindE (start_pixel_format dev) (\<lambda>_.
       bindE (call dev AT_Flush) (\<lambda>_.
       bindE (start_geometry dev) (\<lambda>_.
       bindE get_cam (\<lambda>c1.
       let frame_stride = ROUND_UP (frame_size c1) FRAME_ALIGN;
           bsize = add_long (FRAME_ALIGN - 1) (mul_long frame_stride (queue_length c1))
       in
       bindE (start_buffer dev bsize) (\<lambda>_.
       bindE get_cam (\<lambda>c2.
       bindE (queue_loop dev 0 (FIRST_FRAME c2) frame_stride) (\<lambda>_.
       bindE (start_cycle_mode dev) (\<lambda>_.
       start_command dev)))))))))"

definition stop_acquisition :: "sdk \<Rightarrow> bool \<Rightarrow> unit act" where
  \<open>stop_acquisition dev final =
     bindE get_cam (\<lambda>c.
     if \<not> acquiring c then warning ''Camera not acquiring.''
     else
       bindE (call dev (AT_Command ''AcquisitionStop'')) (\<lambda>r.
       bindE (if rc r \<noteq> AT_SUCCESS \<and> \<not> final then
                warning (''Failure of AT_Command "AcquisitionStop" ('' @ get_reason (rc r) @ '').'')
              else ret ()) (\<lambda>_.
       bindE (call dev AT_Flush) (\<lambda>f.
       bindE (if rc f \<noteq> AT_SUCCESS \<and> \<not> final then
                warning (''Failure of AT_Flush ('' @ get_reason (rc f) @ '').'')
              else ret ()) (\<lambda>_.
       modify_cam (\<lambda>c. c\<lparr>acquiring := False\<rparr>))))))\<close>

text \<open>Teardown of a camera object: the only caller of \<open>stop_acquisition\<close> with
  \<open>final\<close> set.\<close>

definition free_camera :: "sdk \<Rightarrow> unit act" where
  "free_camera dev =
     bindE get_cam (\<lambda>c.
     if initialized c then
       bindE (modify_cam (\<lambda>c. c\<lparr>initialized := False\<rparr>)) (\<lambda>_.
       bindE (if acquiring c then stop_acquisition dev True else ret ()) (\<lambda>_.
       bindE get_cam (\<lambda>c1.
       bindE (if buffer c1 \<noteq> NULL then p_free dev (buffer c1) else ret ()) (\<lambda>_.
       bindE (call dev AT_Close) (\<lambda>_. ret ())))))
     else ret ())"

definition Y_andor_set_queue_length :: "int \<Rightarrow> int \<Rightarrow> yvalue act" where
  "Y_andor_set_queue_length argc n =
     (if argc \<noteq> 2 then y_error ''expecting exactly 2 arguments''
      else
        bindE get_cam (\<lambda>c.
        if n < 1 then y_error ''queue length must be >= 1''
        else if acquiring c then y_error ''acquisition is acquiring''
        else bindE (modify_cam (\<lambda>c. c\<lparr>queue_length := n\<rparr>)) (\<lambda>_. ret Y_nil)))"

definition Y_andor_start_acquisition :: "sdk \<Rightarrow> int \<Rightarrow> unit act" where
  "Y_andor_start_acquisition dev argc =
     (if argc \<noteq> 1 then y_error ''expecting exactly 1 argument''
      else start_acquisition dev)"

definition Y_andor_stop_acquisition :: "sdk \<Rightarrow> int \<Rightarrow> unit act" where
  "Y_andor_stop_acquisition dev argc =
     (if argc \<noteq> 1 then y_error ''expecting exactly 1 argument''
      else stop_acquisition dev False)"

section \<open>Decoders\<close>

text \<open>
  A decoder reads the frame through \<open>src\<close>, the bytes readable from the frame pointer,
  and fills a new Yorick array. Offsets into the two byte sequences are \<open>long\<close> values;
  an access that leaves a sequence is undefined behaviour (\<open>None\<close>), so the offsets of
  a defined run stay within the sequences.
\<close>

definition memcpy :: "u8 list \<Rightarrow> int \<Rightarrow> u8 list \<Rightarrow> int \<Rightarrow> int \<Rightarrow> u8 list option" where
  "memcpy dst d src s n =
     (if 0 \<le> d \<and> 0 \<le> s \<and> 0 \<le> n \<and> d + n \<le> int (length dst) \<and> s + n \<le> int (length src)
      then Some (take (nat d) dst @ take (nat n) (drop (nat s) src) @ drop (nat (d + n)) dst)
      else None)"

text \<open>\<open>ypush_c\<close>, \<open>ypush_s\<close> and \<open>ypush_i\<close> of the Yorick runtime: a new array of
  the given dimensions, here with every byte 0 (the decoders overwrite all of it).\<close>

fun sizeof_ytype :: "ytype \<Rightarrow> int" where
  "sizeof_ytype Y_char = 1"
| "sizeof_ytype Y_short = 2"
| "sizeof_ytype Y_int = 4"

definition ypush :: "ytype \<Rightarrow> int list \<Rightarrow> u8 list" where
  "ypush ty dims = replicate (nat (sizeof_ytype ty * prod_list dims)) 0"

definition of_option :: "'a option \<Rightarrow> 'a act" where
  "of_option x = (case x of None \<Rightarrow> fault | Some v \<Rightarrow> ret v)"

definition extract_Raw :: "u8 list \<Rightarrow> yvalue act" where
  "extract_Raw src =
     bindE get_cam (\<lambda>c.
     bindE (of_option (memcpy (ypush Y_char [frame_size c]) 0 src 0 (to_size (frame_size c)))) (\<lambda>d.
     ret (Y_array Y_char [frame_size c] d)))"

text \<open>The C types that the first \<open>FUNCTION\<close> macro is instantiated with.\<close>

datatype ctype = Unsigned_char | Unsigned_short | Unsigned_int | Uint8_t | Uint16_t | Uint32_t

fun sizeof :: "ctype \<Rightarrow> int" where
  "sizeof Unsigned_char = 1"
| "sizeof Unsigned_short = 2"
| "sizeof Unsigned_int = 4"
| "sizeof Uint8_t = 1"
| "sizeof Uint16_t = 2"
| "sizeof Uint32_t = 4"

fun ctype_name :: "ctype \<Rightarrow> string" where
  "ctype_name Unsigned_char = ''unsigned char''"
| "ctype_name Unsigned_short = ''unsigned short''"
| "ctype_name Unsigned_int = ''unsigned int''"
| "ctype_name Uint8_t = ''uint8_t''"
| "ctype_name Uint16_t = ''uint16_t''"
| "ctype_name Uint32_t = ''uint32_t''"

text \<open>"Copy row by row.": the loop over \<open>y\<close>, with \<open>dst\<close> counted in elements of
  \<open>dsz\<close> bytes.\<close>

function copy_rows :: "camera \<Rightarrow> int \<Rightarrow> int \<Rightarrow> u8 list \<Rightarrow> int \<Rightarrow> u8 list \<Rightarrow> u8 list option" where
  "copy_rows c dsz row_size src y dst =
     (if y < frame_height c then
        (case memcpy dst (y * frame_width c * dsz) src (y * row_stride c) row_size of
           None \<Rightarrow> None
         | Some d \<Rightarrow> copy_rows c dsz row_size src (y + 1) d)
      else Some dst)"
  by pat_completeness auto
termination
  by (relation "measure (\<lambda>(c, dsz, row_size, src, y, dst). nat (frame_height c - y))") auto

text \<open>"A conversion is needed, copy pixel by pixel.": \<open>dst_row[x] = src_row[x]\<close> reads
  an unsigned element of \<open>ssz\<close> bytes and stores it in \<open>dsz\<close> bytes; in little-endian
  order that appends zero bytes.\<close>

definition convert_pixel :: "int \<Rightarrow> int \<Rightarrow> u8 list \<Rightarrow> int \<Rightarrow> u8 list \<Rightarrow> int \<Rightarrow> u8 list option" where
  "convert_pixel dsz ssz src s dst d =
     (if 0 \<le> s \<and> s + ssz \<le> int (length src) then
        memcpy dst d (take (nat ssz) (drop (nat s) src) @ replicate (nat (dsz - ssz)) 0) 0 dsz
      else None)"

function convert_row :: "camera \<Rightarrow> int \<Rightarrow> int \<Rightarrow> u8 list \<Rightarrow> int \<Rightarrow> int \<Rightarrow> u8 list \<Rightarrow> u8 list option" where
  "convert_row c dsz ssz src y x dst =
     (if x < frame_width c then
        (case convert_pixel dsz ssz src (y * row_stride c + x * ssz)
                dst ((y * frame_width c + x) * dsz) of
           None \<Rightarrow> None
         | Some d \<Rightarrow> convert_row c dsz ssz src y (x + 1) d)
      else Some dst)"
  by pat_completeness auto
termination
  by (relation "measure (\<lambda>(c, dsz, ssz, src, y, x, dst). nat (frame_width c - x))") auto

function convert_rows :: "camera \<Rightarrow> int \<Rightarrow> int \<Rightarrow> u8 list \<Rightarrow> int \<Rightarrow> u8 list \<Rightarrow> u8 list option" where
  "convert_rows c dsz ssz src y dst =
     (if y < frame_height c then
        (case convert_row c dsz ssz src y 0 dst of
           None \<Rightarrow> None
         | Some d \<Rightarrow> convert_rows c dsz ssz src (y + 1) d)
      else Some dst)"
  by pat_completeness auto
termination
  by (relation "measure (\<lambda>(c, dsz, ssz, src, y, dst). nat (frame_height c - y))") auto

text \<open>\<^verbatim>\<open>#define FUNCTION(NAME, DST_TYPE, PUSH, SRC_TYPE)\<close>: the body, for the destination
  type, the array type that \<open>PUSH\<close> creates and the source type.\<close>

definition FUNCTION_mono :: "ctype \<Rightarrow> ytype \<Rightarrow> ctype \<Rightarrow> u8 list \<Rightarrow> yvalue act" where
  "FUNCTION_mono dst_type push src_type src =
     bindE get_cam (\<lambda>c.
     if sizeof dst_type < sizeof src_type then
       y_error (''sizeof('' @ ctype_name dst_type @ '') < sizeof('' @ ctype_name src_type @ '')'')
     else
       let dims = [frame_width c, frame_height c];
           dst = ypush push dims
       in
       bindE (of_option
                (if sizeof src_type = sizeof dst_type then
                   (let row_size = to_size (sizeof dst_type * frame_width c) in
                    if to_size (row_stride c) = row_size then
                      memcpy dst 0 src 0 (to_size (frame_height c * row_size))
                    else copy_rows c (sizeof dst_type) row_size src 0 dst)
                 else convert_rows c (sizeof dst_type) (sizeof src_type) src 0 dst)) (\<lambda>d.
       ret (Y_array push dims d)))"

definition extract_Mono8 :: "u8 list \<Rightarrow> yvalue act" where
  "extract_Mono8 = FUNCTION_mono Unsigned_char Y_char Uint8_t"

definition extract_Mono12 :: "u8 list \<Rightarrow> yvalue act" where
  "extract_Mono12 = FUNCTION_mono Unsigned_short Y_short Uint16_t"

definition extract_Mono16 :: "u8 list \<Rightarrow> yvalue act" where
  "extract_Mono16 = FUNCTION_mono Unsigned_short Y_short Uint16_t"

definition extract_Mono32 :: "u8 list \<Rightarrow> yvalue act" where
  "extract_Mono32 = FUNCTION_mono Unsigned_int Y_int Uint32_t"

text \<open>\<^verbatim>\<open>#define FUNCTION(FORMAT)\<close>: the decoders that warn once and copy the raw
  bytes.\<close>

definition FUNCTION_raw :: "extractor \<Rightarrow> string \<Rightarrow> u8 list \<Rightarrow> yvalue act" where
  "FUNCTION_raw fn format src =
     bindE (\<lambda>s. (Inr (warn_flag s fn), s)) (\<lambda>warn.
     bindE (if warn then
              bindE (warning (format @ '' pixels will be extracted as raw data.'')) (\<lambda>_.
              (\<lambda>s. (Inr (), s\<lparr>warn_flag := (warn_flag s)(fn := False)\<rparr>)))
            else ret ()) (\<lambda>_.
     extract_Raw src))"

definition extract_RGB8Packed :: "u8 list \<Rightarrow> yvalue act" where
  "extract_RGB8Packed = FUNCTION_raw Extract_RGB8Packed ''RGB8Packed''"

definition extract_Mono12Coded :: "u8 list \<Rightarrow> yvalue act" where
  "extract_Mono12Coded = FUNCTION_raw Extract_Mono12Coded ''Mono12Coded''"

definition extract_Mono12codedPacked :: "u8 list \<Rightarrow> yvalue act" where
  "extract_Mono12codedPacked = FUNCTION_raw Extract_Mono12codedPacked ''Mono12codedPacked''"

definition extract_Mono12parallel :: "u8 list \<Rightarrow> yvalue act" where
  "extract_Mono12parallel = FUNCTION_raw Extract_Mono12parallel ''Mono12parallel''"

definition extract_Mono12PackedParallel :: "u8 list \<Rightarrow> yvalue act" where
  "extract_Mono12PackedParallel = FUNCTION_raw Extract_Mono12PackedParallel ''Mono12PackedParallel''"

text \<open>\<open>ptr[i]\<close> of an \<open>unsigned char\<close> pointer at offset \<open>p\<close> into \<open>src\<close>, promoted
  to \<open>int\<close>.\<close>

definition rd :: "u8 list \<Rightarrow> int \<Rightarrow> int option" where
  "rd src i = (if 0 \<le> i \<and> i < int (length src) then Some (uint (src ! nat i)) else None)"

text \<open>\<^verbatim>\<open>#define EXTRACTLOWPACKED(ptr)  ((ptr[0] << 4) | (ptr[1] & 0xF))\<close> and
  \<^verbatim>\<open>#define EXTRACTHIGHPACKED(ptr) ((ptr[2] << 4) | (ptr[1] >> 4))\<close>\<close>

definition EXTRACTLOWPACKED :: "u8 list \<Rightarrow> int \<Rightarrow> int option" where
  "EXTRACTLOWPACKED src p =
     Option.bind (rd src p) (\<lambda>b0.
     Option.bind (rd src (p + 1)) (\<lambda>b1.
     Some (push_bit 4 b0 OR (b1 AND 0xF))))"

definition EXTRACTHIGHPACKED :: "u8 list \<Rightarrow> int \<Rightarrow> int option" where
  "EXTRACTHIGHPACKED src p =
     Option.bind (rd src (p + 2)) (\<lambda>b2.
     Option.bind (rd src (p + 1)) (\<lambda>b1.
     Some (push_bit 4 b2 OR drop_bit 4 b1)))"

text \<open>\<open>dst_ptr[0] = v\<close> for an \<open>unsigned short\<close> pointer at element \<open>i\<close> of \<open>dst\<close>:
  the value is reduced to 16 bits and stored low byte first.\<close>

definition store_short :: "u8 list \<Rightarrow> int \<Rightarrow> int \<Rightarrow> u8 list option" where
  "store_short dst i v = memcpy dst (2 * i) [word_of_int v, word_of_int (drop_bit 8 v)] 0 2"

text \<open>The \<open>while (dst_ptr < dst_end)\<close> loop of \<open>extract_Mono12Packed\<close>; it gives back
  the array and the two pointers.\<close>

function pair_loop :: "u8 list \<Rightarrow> int \<Rightarrow> u8 list \<Rightarrow> int \<Rightarrow> int \<Rightarrow> (u8 list \<times> int \<times> int) option" where
  "pair_loop src src_ptr dst dst_ptr dst_end =
     (if dst_ptr < dst_end then
        Option.bind (EXTRACTLOWPACKED src src_ptr) (\<lambda>lo.
        Option.bind (store_short dst dst_ptr lo) (\<lambda>d0.
        Option.bind (EXTRACTHIGHPACKED src src_ptr) (\<lambda>hi.
        Option.bind (store_short d0 (dst_ptr + 1) hi) (\<lambda>d1.
        pair_loop src (src_ptr + 3) d1 (dst_ptr + 2) dst_end))))
      else Some (dst, src_ptr, dst_ptr))"
  by pat_completeness auto
termination
  by (relation "measure (\<lambda>(src, src_ptr, dst, dst_ptr, dst_end). nat (dst_end - dst_ptr))") auto

function unpack_rows :: "camera \<Rightarrow> bool \<Rightarrow> int \<Rightarrow> u8 list \<Rightarrow> int \<Rightarrow> u8 list \<Rightarrow> u8 list option" where
  "unpack_rows c odd_width even_width src y dst =
     (if y < frame_height c then
        Option.bind (pair_loop src (y * row_stride c) dst (y * frame_width c)
                       (y * frame_width c + even_width)) (\<lambda>(d, src_ptr, dst_ptr).
        Option.bind (if odd_width then
                       Option.bind (EXTRACTLOWPACKED src src_ptr) (store_short d dst_ptr)
                     else Some d) (\<lambda>d1.
        unpack_rows c odd_width even_width src (y + 1) d1))
      else Some dst)"
  by pat_completeness auto
termination
  by (relation "measure (\<lambda>(c, odd_width, even_width, src, y, dst). nat (frame_height c - y))") auto

definition extract_Mono12Packed :: "u8 list \<Rightarrow> yvalue act" where
  "extract_Mono12Packed src =
     bindE (fprintf_stderr ''extract_Mono12Packed'') (\<lambda>_.
     bindE get_cam (\<lambda>c.
     if sizeof Unsigned_short < 2 then y_error ''sizeof(short) < 2''
     else
       let dims = [frame_width c, frame_height c];
           dst = ypush Y_short dims;
           odd_width = (frame_width c AND 1 \<noteq> 0);
           even_width = frame_width c AND NOT 1
       in
       bindE (of_option (unpack_rows c odd_width even_width src 0 dst)) (\<lambda>d.
       ret (Y_array Y_short dims d))))"

text \<open>The call through \<open>cam->extract\<close>.\<close>

fun call_extract :: "extractor \<Rightarrow> u8 list \<Rightarrow> yvalue act" where
  "call_extract Extract_Raw = extract_Raw"
| "call_extract Extract_Mono8 = extract_Mono8"
| "call_extract Extract_Mono12Packed = extract_Mono12Packed"
| "call_extract Extract_Mono12 = extract_Mono12"
| "call_extract Extract_Mono16 = extract_Mono16"
| "call_extract Extract_Mono32 = extract_Mono32"
| "call_extract Extract_RGB8Packed = extract_RGB8Packed"
| "call_extract Extract_Mono12Coded = extract_Mono12Coded"
| "call_extract Extract_Mono12codedPacked = extract_Mono12codedPacked"
| "call_extract Extract_Mono12parallel = extract_Mono12parallel"
| "call_extract Extract_Mono12PackedParallel = extract_Mono12PackedParallel"

section \<open>Waiting for a frame\<close>

definition wrap_int :: "int \<Rightarrow> int" where
  "wrap_int x = (x + 2 ^ 31) mod 2 ^ 32 - 2 ^ 31"

definition check_frame :: "int \<Rightarrow> int \<Rightarrow> bool \<Rightarrow> unit act" where
  "check_frame frame_ptr fsize verbose =
     bindE get_cam (\<lambda>c.
     let base = ROUND_UP_size (to_size (buffer c)) FRAME_ALIGN;
         end_addr = to_size (to_size (buffer c) + to_size (buffer_size c))
     in
     bindE (if fsize \<noteq> frame_size c then
              warning (''frame_size ('' @ show_int fsize @ '') != cam->frame_size (''
                       @ show_int (frame_size c) @ '').'')
            else ret ()) (\<lambda>_.
     if to_size frame_ptr < base \<or> to_size frame_ptr \<ge> end_addr then
       warning ''Returned frame address is outside our buffers.''
     else
       let offset = wrap_long (to_size frame_ptr - base);
           frame_stride = ROUND_UP (frame_size c) FRAME_ALIGN
       in
       if frame_stride = 0 then fault
       else if offset smod frame_stride \<noteq> 0 then
         warning ''Returned frame is not aligned with one of our buffers.''
       else if verbose then
         fprintf_stderr (''*** INFO *** Returned frame is buffer index ''
                         @ show_int (wrap_int (offset sdiv frame_stride)) @ ''.'')
       else ret ()))"

text \<open>The reply to \<open>AT_WaitBuffer\<close> carries the frame pointer in \<open>rptr\<close>, the frame
  size in \<open>rint\<close> and the bytes readable from the pointer in \<open>rdata\<close>.\<close>

definition Y_andor_wait_image :: "sdk \<Rightarrow> int \<Rightarrow> int \<Rightarrow> yvalue act" where
  "Y_andor_wait_image dev argc timeout =
     (if argc \<noteq> 2 then y_error ''expecting exactly 2 arguments''
      else
        bindE get_cam (\<lambda>c.
        if \<not> acquiring c then y_error ''camera is not acquiring''
        else
          bindE (call dev (AT_WaitBuffer (if timeout < 0 then AT_INFINITE else timeout))) (\<lambda>r.
          if rc r \<noteq> AT_SUCCESS then
            bindE (throw ''AT_WaitBuffer'' (rc r)) (\<lambda>_. ret Y_nil)
          else
            bindE (check_frame (rptr r) (rint r) False) (\<lambda>_.
            bindE get_cam (\<lambda>c1.
            bindE (case extract_fn c1 of
                     Some fn \<Rightarrow> call_extract fn (rdata r)
                   | None \<Rightarrow> ret Y_nil) (\<lambda>v.
            bindE (call dev (AT_QueueBuffer (rptr r) (rint r))) (\<lambda>q.
            bindE (throw ''AT_QueueBuffer'' (rc q)) (\<lambda>_.
            ret v))))))))"

section \<open>Observations on runs\<close>

text \<open>The error that \<open>throw\<close> raises for a failed call.\<close>

definition failure :: "string \<Rightarrow> at_code \<Rightarrow> error" where
  "failure descr code = Y_error (''failure in '' @ descr @ '' ('' @ get_reason code @ '')'')"

text \<open>The value of \<open>frame_ptr\<close> after \<open>i\<close> rounds of the queuing loop.\<close>

fun frame_ptr_at :: "int \<Rightarrow> int \<Rightarrow> nat \<Rightarrow> int" where
  "frame_ptr_at p st 0 = p"
| "frame_ptr_at p st (Suc i) = frame_ptr_at (add_long p st) st i"

text \<open>The events that a run adds to the trace.\<close>

definition new_events :: "state \<Rightarrow> state \<Rightarrow> event list" where
  "new_events s s' = drop (length (trace s)) (trace s')"

text \<open>The addresses handed to \<open>AT_QueueBuffer\<close>, the calls of the allocator, the
  warnings, and the warnings about the pixel encoding, in a list of events.\<close>

fun queued_ptr :: "event \<Rightarrow> int list" where
  "queued_ptr (Call (AT_QueueBuffer p n) c) = [p]"
| "queued_ptr e = []"

definition queued :: "event list \<Rightarrow> int list" where
  "queued evs = concat (map queued_ptr evs)"

fun is_mem :: "event \<Rightarrow> bool" where
  "is_mem (Call (P_malloc n) c) = True"
| "is_mem (Call (P_free p) c) = True"
| "is_mem e = False"

fun is_warn :: "event \<Rightarrow> bool" where
  "is_warn (Warn m) = True"
| "is_warn e = False"

definition raw_data_warnings :: "string list" where
  "raw_data_warnings =
     map (\<lambda>row. fst row @ '' pixels will be extracted as raw data.'') pixel_encoding_table"

fun is_encoding_warning :: "event \<Rightarrow> bool" where
  "is_encoding_warning (Warn m) = (m = ''Unknown pixel encoding.'' \<or> m \<in> set raw_data_warnings)"
| "is_encoding_warning e = False"

text \<open>Events of the queries and of the flush: no buffer is queued, no memory is requested
  or released, nothing is started and nothing is warned about.\<close>

fun quiet :: "event \<Rightarrow> bool" where
  "quiet (Call (AT_GetInt feature) c) = True"
| "quiet (Call (AT_IsImplemented feature) c) = True"
| "quiet (Call (AT_GetEnumIndex feature) c) = True"
| "quiet (Call (AT_GetEnumStringByIndex feature i n) c) = True"
| "quiet (Call AT_Flush c) = True"
| "quiet e = False"

definition quiet_run :: "state \<Rightarrow> state \<Rightarrow> bool" where
  "quiet_run s s' =
     (warn_flag s' = warn_flag s \<and> heap s' = heap s \<and>
      (\<exists>evs. trace s' = trace s @ evs \<and> list_all quiet evs))"

text \<open>The operations named in the errors of the queuing loop, of the cycle mode and of
  the start command, and those named in the errors of the steps before them.\<close>

definition late_descrs :: "string list" where
  \<open>late_descrs = [''AT_QueueBuffer'', ''AT_SetEnumString "CycleMode" "Continuous"'',
                  ''AT_Command "AcquisitionStart"'']\<close>

definition early_descrs :: "string list" where
  \<open>early_descrs = [''AT_GetEnumIndex "PixelEncoding"'', ''AT_GetEnumStringByIndex "PixelEncoding"'',
     ''AT_GetInt "ImageSizeBytes"'', ''AT_IsImplemented "AOI Width"'', ''AT_GetInt "AOI Width"'',
     ''AT_GetInt "Sensor Width"'', ''AT_IsImplemented "AOI Height"'', ''AT_GetInt "AOI Height"'',
     ''AT_GetInt "Sensor Height"'', ''AT_GetInt "AOIStride"'']\<close>

definition early :: "error \<Rightarrow> bool" where
  "early e = (e \<in> Y_error ` {''set queue length first'', ''invalid frame size'',
                  ''invalid frame width'', ''invalid frame height'', ''invalid row stride'',
                  ''memory manager failed''}
              \<or> (\<exists>d c. d \<in> set early_descrs \<and> e = failure d c))"

text \<open>The name under which \<open>start_acquisition\<close> reports a failed call of its last
  three steps.\<close>

fun call_descr :: "sdk_call \<Rightarrow> string" where
  \<open>call_descr (AT_QueueBuffer p n) = ''AT_QueueBuffer''\<close>
| \<open>call_descr (AT_SetEnumString feature v) = ''AT_SetEnumString "'' @ feature @ ''" "'' @ v @ ''"''\<close>
| \<open>call_descr (AT_Command command) = ''AT_Command "'' @ command @ ''"''\<close>
| \<open>call_descr c = []\<close>

text \<open>The bytes of row \<open>y\<close> of a frame whose elements have \<open>esz\<close> bytes, without the
  padding that follows them up to \<open>row_stride\<close>; the rows of a frame one after the other; and
  what a single \<open>memcpy\<close> of \<open>n\<close> bytes from the start of the frame gives.\<close>

definition row_bytes :: "camera \<Rightarrow> int \<Rightarrow> u8 list \<Rightarrow> nat \<Rightarrow> u8 list" where
  "row_bytes c esz src y =
     take (nat (esz * frame_width c)) (drop (nat (int y * row_stride c)) src)"

definition rows_bytes :: "camera \<Rightarrow> int \<Rightarrow> u8 list \<Rightarrow> u8 list" where
  "rows_bytes c esz src = concat (map (row_bytes c esz src) [0..<nat (frame_height c)])"

definition bulk_copy :: "u8 list \<Rightarrow> int \<Rightarrow> u8 list" where
  "bulk_copy src n = take (nat n) src"


text \<open>The elements of an array of \<open>short\<close> on the little-endian host, and the rows of a
  two-dimensional Yorick array, whose first index runs fastest.\<close>

fun shorts_le :: "u8 list \<Rightarrow> int list" where
  "shorts_le (lo # hi # bs) = (uint lo + 256 * uint hi) # shorts_le bs"
| "shorts_le bs = []"

fun yorick_rows :: "yvalue \<Rightarrow> int list list" where
  "yorick_rows (Y_array Y_short [w, h] bs) =
     map (\<lambda>y. take (nat w) (drop (y * nat w) (shorts_le bs))) [0..<nat h]"
| "yorick_rows v = []"

text \<open>The packing of a row of 12-bit samples that the decoder of \<open>Mono12Packed\<close> is
  specified against: two samples in three bytes, the middle byte with the four low bits of
  the first sample in its low half and those of the second in its high half; a last single
  sample in two bytes. And the bytes of an array of \<open>short\<close> with the given elements.\<close>

fun pack_row :: "int list \<Rightarrow> u8 list" where
  "pack_row (lo # hi # vs) =
     [word_of_int (drop_bit 4 lo), word_of_int ((lo AND 0xF) OR push_bit 4 (hi AND 0xF)),
      word_of_int (drop_bit 4 hi)] @ pack_row vs"
| "pack_row [lo] = [word_of_int (drop_bit 4 lo), word_of_int (lo AND 0xF)]"
| "pack_row [] = []"

definition short_bytes :: "int list \<Rightarrow> u8 list" where
  "short_bytes vs = concat (map (\<lambda>v. [word_of_int v, word_of_int (drop_bit 8 v)]) vs)"

text \<open>The encoding string that \<open>get_pixel_encoding\<close> reads when it runs in state \<open>s\<close>,
  cut after \<open>PIXEL_ENCODING_MAXLEN\<close> characters as the function does.\<close>

definition reported_encoding :: "sdk \<Rightarrow> state \<Rightarrow> wstring" where
  "reported_encoding dev s =
     take PIXEL_ENCODING_MAXLEN
       (rstr (dev (trace s @ [Call (AT_GetEnumIndex ''PixelEncoding'') (cam s)])
                  (AT_GetEnumStringByIndex ''PixelEncoding''
                     (rint (dev (trace s) (AT_GetEnumIndex ''PixelEncoding'')))
                     (int PIXEL_ENCODING_MAXLEN + 1))))"

text \<open>Repeated frames: one call of \<open>Y_andor_wait_image\<close> for each timeout of the list,
  whatever the calls return.\<close>

fun wait_images :: "sdk \<Rightarrow> int list \<Rightarrow> state \<Rightarrow> state" where
  "wait_images dev [] s = s"
| "wait_images dev (t # ts) s = wait_images dev ts (snd (Y_andor_wait_image dev 2 t s))"

text \<open>The size of the pool that \<open>start_acquisition\<close> wants for a frame size and a queue
  length (its local \<open>buffer_size\<close>).\<close>

definition wanted_size :: "int \<Rightarrow> int \<Rightarrow> int" where
  "wanted_size fsize qlen =
     add_long (FRAME_ALIGN - 1) (mul_long (ROUND_UP fsize FRAME_ALIGN) qlen)"

text \<open>A run is calm when it leaves the camera structure and the warning flags alone
  and adds no warning about the pixel encoding to the trace.\<close>

definition calm :: "state \<Rightarrow> state \<Rightarrow> bool" where
  "calm s s' =
     (cam s' = cam s \<and> warn_flag s' = warn_flag s \<and> trace s' = trace s @ new_events s s' \<and>
      filter is_encoding_warning (new_events s s') = [])"

definition calm_run :: "(camera \<Rightarrow> bool) \<Rightarrow> 'a act \<Rightarrow> bool" where
  "calm_run P m = (\<forall>s r s'. P (cam s) \<and> m s = (r, s') \<longrightarrow> calm s s')"

section \<open>A reference device\<close>

text \<open>The camera object as \<open>Y_andor_open\<close> leaves it: zero-filled by \<open>ypush_obj\<close>, then
  the handle, the device number, \<open>initialized\<close> and the raw decoder are set.\<close>

definition camera_open :: camera where
  "camera_open =
     \<lparr>handle = 1, device = 0, initialized = True, acquiring = False, buffer = NULL,
      buffer_size = 0, queue_length = 0, frame_size = 0, frame_width = 0, frame_height = 0,
      row_stride = 0, extract_fn = Some Extract_Raw\<rparr>"

definition state_open :: "int \<Rightarrow> state" where
  "state_open qlen =
     \<lparr>cam = camera_open\<lparr>queue_length := qlen\<rparr>, trace = [], warn_flag = (\<lambda>fn. True), heap = Map.empty\<rparr>"

definition reply_ok :: reply where
  "reply_ok = \<lparr>rc = AT_SUCCESS, rint = 0, rbool = False, rstr = [], rptr = 0, rdata = []\<rparr>"

text \<open>A camera that delivers frames of 4 by 2 pixels in the given encoding, 16 bits a
  pixel in rows of \<open>stride\<close> bytes; the allocator gives the address 4100.\<close>

definition demo_frame :: "u8 list" where
  "demo_frame = [1, 0, 2, 0, 3, 0, 4, 0, 5, 0, 6, 0, 7, 0, 8, 0]"

fun demo_sdk :: "string \<Rightarrow> int \<Rightarrow> sdk" where
  "demo_sdk enc stride tr (AT_GetInt feature) =
     reply_ok\<lparr>rint := (if feature = ''ImageSizeBytes'' then 2 * stride
                        else if feature = ''AOI Width'' then 4
                        else if feature = ''AOI Height'' then 2
                        else if feature = ''AOIStride'' then stride
                        else 0)\<rparr>"
| "demo_sdk enc stride tr (AT_IsImplemented feature) = reply_ok\<lparr>rbool := True\<rparr>"
| "demo_sdk enc stride tr (AT_GetEnumStringByIndex feature i n) = reply_ok\<lparr>rstr := L enc\<rparr>"
| "demo_sdk enc stride tr (P_malloc n) = reply_ok\<lparr>rptr := 4100, rdata := replicate (nat n) 0xCD\<rparr>"
| "demo_sdk enc stride tr (AT_WaitBuffer t) =
     reply_ok\<lparr>rptr := 4104, rint := 2 * stride, rdata := demo_frame\<rparr>"
| "demo_sdk enc stride tr c = reply_ok"

text \<open>A device on which every call fails, and one on which only the calls that satisfy
  \<open>bad\<close> fail.\<close>

definition dead_sdk :: sdk where
  "dead_sdk tr c = reply_ok\<lparr>rc := AT_ERR_CONNECTION\<rparr>"

definition failing :: "(sdk_call \<Rightarrow> bool) \<Rightarrow> at_code \<Rightarrow> sdk \<Rightarrow> sdk" where
  "failing bad code dev tr c = (if bad c then (dev tr c)\<lparr>rc := code\<rparr> else dev tr c)"

fun is_wait :: "sdk_call \<Rightarrow> bool" where
  "is_wait (AT_WaitBuffer t) = True"
| "is_wait c = False"

definition state_acquiring :: state where
  "state_acquiring =
     \<lparr>cam = camera_open\<lparr>queue_length := 2, acquiring := True, buffer := 4100, buffer_size := 39,
                        frame_size := 16, frame_width := 4, frame_height := 2, row_stride := 8,
                        extract_fn := Some Extract_Mono16\<rparr>,
      trace = [], warn_flag = (\<lambda>fn. True), heap = [4100 \<mapsto> replicate 39 0xCD]\<rparr>"

text \<open>The session after a start and a stop on the reference device, and the same with
  the queue length set to 3.\<close>

definition state_restart :: state where
  "state_restart =
     snd (stop_acquisition (demo_sdk ''Mono16'' 8) False
            (snd (start_acquisition (demo_sdk ''Mono16'' 8) (state_open 2))))"

definition state_resized :: state where
  "state_resized = snd (Y_andor_set_queue_length 2 3 state_restart)"

text \<open>The session after a start with \<open>2 ^ 61\<close> slots for frames of 8 bytes and a stop,
  with the queue length then set to \<open>2 ^ 62\<close>.\<close>

definition state_wide :: state where
  "state_wide =
     snd (Y_andor_set_queue_length 2 (2 ^ 62)
            (snd (stop_acquisition (demo_sdk ''Mono8'' 4) False
                    (snd (start_acquisition (demo_sdk ''Mono8'' 4) (state_open (2 ^ 61)))))))"

section \<open>Runs of the blocks of start\<close>

lemma bindE_Inr: "bindE m f s = (Inr y, s') \<longleftrightarrow> (\<exists>x s1. m s = (Inr x, s1) \<and> f x s1 = (Inr y, s'))"
  by (auto simp: bindE_def split: prod.splits sum.splits)

lemma bindE_Inl: "bindE m f s = (Inl e, s') \<longleftrightarrow>
    m s = (Inl e, s') \<or> (\<exists>x s1. m s = (Inr x, s1) \<and> f x s1 = (Inl e, s'))"
  by (auto simp: bindE_def split: prod.splits sum.splits)

lemma throw_simps:
  "throw d AT_SUCCESS s = (Inr (), s)"
  "code \<noteq> AT_SUCCESS \<Longrightarrow> throw d code s = (Inl (failure d code), s)"
  by (simp_all add: throw_def ret_def y_error_def failure_def)

lemma throw_alt:
  "throw d code = (if code \<noteq> AT_SUCCESS then (\<lambda>s. (Inl (failure d code), s)) else ret ())"
  by (auto simp: throw_def ret_def y_error_def failure_def)

lemma early_failure: "d \<in> set early_descrs \<Longrightarrow> early (failure d c)"
  by (auto simp: early_def)

lemma early_simps [simp]:
  "early (Y_error ''set queue length first'')"
  "early (Y_error ''invalid frame size'')"
  "early (Y_error ''invalid frame width'')"
  "early (Y_error ''invalid frame height'')"
  "early (Y_error ''invalid row stride'')"
  "early (Y_error ''memory manager failed'')"
  \<open>early (failure ''AT_GetEnumIndex "PixelEncoding"'' c)\<close>
  \<open>early (failure ''AT_GetEnumStringByIndex "PixelEncoding"'' c)\<close>
  \<open>early (failure ''AT_GetInt "ImageSizeBytes"'' c)\<close>
  \<open>early (failure ''AT_IsImplemented "AOI Width"'' c)\<close>
  \<open>early (failure ''AT_GetInt "AOI Width"'' c)\<close>
  \<open>early (failure ''AT_GetInt "Sensor Width"'' c)\<close>
  \<open>early (failure ''AT_IsImplemented "AOI Height"'' c)\<close>
  \<open>early (failure ''AT_GetInt "AOI Height"'' c)\<close>
  \<open>early (failure ''AT_GetInt "Sensor Height"'' c)\<close>
  \<open>early (failure ''AT_GetInt "AOIStride"'' c)\<close>
  by (simp_all add: early_failure early_descrs_def) (simp_all add: early_def)

lemma early_not_late: "early e \<Longrightarrow> d \<in> set late_descrs \<Longrightarrow> e \<noteq> failure d c"
  by (auto simp: early_def late_descrs_def early_descrs_def failure_def)

lemmas prim_defs = bindE_def call_def throw_alt ret_def y_error_def get_cam_def modify_cam_def
  warning_def

lemma quiet_run_refl [simp]: "quiet_run s s"
  by (simp add: quiet_run_def)

lemma quiet_run_trans: "quiet_run a b \<Longrightarrow> quiet_run b c \<Longrightarrow> quiet_run a c"
  by (auto simp: quiet_run_def)

lemma quiet_run_cam [simp]: "quiet_run s (t\<lparr>cam := c\<rparr>) = quiet_run s t"
  "quiet_run (s\<lparr>cam := c\<rparr>) t = quiet_run s t"
  by (simp_all add: quiet_run_def)

lemma quiet_run_call: "quiet (Call c (cam s)) \<Longrightarrow> quiet_run s (s\<lparr>trace := trace s @ [Call c (cam s)]\<rparr>)"
  by (simp add: quiet_run_def)

lemma quiet_run_call2:
  "quiet (Call c (cam s)) \<Longrightarrow> quiet (Call c' (cam s)) \<Longrightarrow>
   quiet_run s (s\<lparr>trace := trace s @ [Call c (cam s), Call c' (cam s)]\<rparr>)"
  by (simp add: quiet_run_def)

lemma get_frame_size_run:
  \<open>get_frame_size dev s = (r, s') \<Longrightarrow>
     cam s' = cam s \<and> quiet_run s s' \<and>
     (case r of Inr v \<Rightarrow> 0 \<le> v \<and> v \<le> LONG_MAX | Inl e \<Rightarrow> early e)\<close>
  by (auto simp: get_frame_size_def prim_defs quiet_run_def split: if_splits)

lemma get_row_stride_run:
  \<open>get_row_stride dev s = (r, s') \<Longrightarrow>
     cam s' = cam s \<and> quiet_run s s' \<and>
     (case r of Inr v \<Rightarrow> 0 \<le> v \<and> v \<le> LONG_MAX | Inl e \<Rightarrow> early e)\<close>
  by (auto simp: get_row_stride_def prim_defs quiet_run_def split: if_splits)

lemma get_frame_width_run:
  \<open>get_frame_width dev s = (r, s') \<Longrightarrow>
     cam s' = cam s \<and> quiet_run s s' \<and>
     (case r of Inr v \<Rightarrow> 0 \<le> v \<and> v \<le> LONG_MAX | Inl e \<Rightarrow> early e)\<close>
  by (auto simp: get_frame_width_def prim_defs quiet_run_def split: if_splits)

lemma get_frame_height_run:
  \<open>get_frame_height dev s = (r, s') \<Longrightarrow>
     cam s' = cam s \<and> quiet_run s s' \<and>
     (case r of Inr v \<Rightarrow> 0 \<le> v \<and> v \<le> LONG_MAX | Inl e \<Rightarrow> early e)\<close>
  by (auto simp: get_frame_height_def prim_defs quiet_run_def split: if_splits)

lemma get_pixel_encoding_run:
  \<open>get_pixel_encoding dev s = (r, s') \<Longrightarrow>
     cam s' = cam s \<and> quiet_run s s' \<and>
     (case r of Inr v \<Rightarrow> True | Inl e \<Rightarrow> early e)\<close>
  by (auto simp: get_pixel_encoding_def prim_defs quiet_run_def split: if_splits)


lemma modify_cam_run: "modify_cam f s = (r, s') \<longleftrightarrow> r = Inr () \<and> s' = s\<lparr>cam := f (cam s)\<rparr>"
  by (auto simp: modify_cam_def)

lemma bindE_cases:
  assumes "bindE m f s = (r, s')"
  obtains (fail) e where "m s = (Inl e, s')" "r = Inl e"
        | (ok) x s1 where "m s = (Inr x, s1)" "f x s1 = (r, s')"
  using assms by (auto simp: bindE_def split: prod.splits sum.splits)

lemma quiet_run_trans3: "quiet_run a b \<Longrightarrow> quiet_run b c \<Longrightarrow> quiet_run c d \<Longrightarrow> quiet_run a d"
  by (blast intro: quiet_run_trans)

lemma quiet_run_trans4: "quiet_run a b \<Longrightarrow> quiet_run b c \<Longrightarrow> quiet_run c d \<Longrightarrow> quiet_run d e \<Longrightarrow> quiet_run a e"
  by (blast intro: quiet_run_trans)

lemma start_geometry_run:
  assumes "start_geometry dev s = (r, s')"
  shows "quiet_run s s' \<and>
     cam s' = (cam s)\<lparr>frame_size := frame_size (cam s'), frame_width := frame_width (cam s'),
                      frame_height := frame_height (cam s'), row_stride := row_stride (cam s')\<rparr> \<and>
     (case r of Inl e \<Rightarrow> early e | Inr u \<Rightarrow> 0 \<le> frame_size (cam s') \<and> frame_size (cam s') \<le> LONG_MAX)"
  using assms unfolding start_geometry_def
  apply (elim bindE_cases)
  apply (auto simp: modify_cam_run dest!: get_frame_size_run get_frame_width_run get_frame_height_run get_row_stride_run
     intro: quiet_run_trans quiet_run_trans3 quiet_run_trans4)
  done


lemma queue_loop_run:
  "queue_loop dev k p st s = (r, s') \<Longrightarrow>
     cam s' = cam s \<and> warn_flag s' = warn_flag s \<and>
     (case r of
        Inr u \<Rightarrow>
          trace s' = trace s @
            map (\<lambda>i. Call (AT_QueueBuffer (frame_ptr_at p st i) (frame_size (cam s))) (cam s))
                [0..<nat (queue_length (cam s) - k)]
      | Inl e \<Rightarrow>
          (\<exists>pre q. trace s' = trace s @ pre @
                       [Call (AT_QueueBuffer q (frame_size (cam s))) (cam s), Call AT_Flush (cam s)] \<and>
                   rc (dev (trace s @ pre) (AT_QueueBuffer q (frame_size (cam s)))) \<noteq> AT_SUCCESS \<and>
                   e = failure ''AT_QueueBuffer''
                         (rc (dev (trace s @ pre) (AT_QueueBuffer q (frame_size (cam s)))))))"
proof (induction dev k p st s arbitrary: r s' rule: queue_loop.induct)
  case (1 dev k p st s)
  let ?c = "AT_QueueBuffer p (frame_size (cam s))"
  let ?s1 = "s\<lparr>trace := trace s @ [Call ?c (cam s)]\<rparr>"
  show ?case
  proof (cases "k < queue_length (cam s)")
    case False
    with "1.prems" show ?thesis by auto
  next
    case lt: True
    show ?thesis
    proof (cases "rc (dev (trace s) ?c) = AT_SUCCESS")
      case False
      with lt "1.prems" have "r = Inl (failure ''AT_QueueBuffer'' (rc (dev (trace s) ?c)))"
        and "s' = ?s1\<lparr>trace := trace ?s1 @ [Call AT_Flush (cam s)]\<rparr>"
        by (auto simp: prim_defs)
      with False show ?thesis
        by (auto intro!: exI [of _ "[]"])
    next
      case ok: True
      with lt "1.prems" have rec: "queue_loop dev (k + 1) (add_long p st) st ?s1 = (r, s')"
        by (simp add: call_def)
      have cs: "call dev ?c s = (Inr (dev (trace s) ?c), ?s1)" by (simp add: call_def)
      from "1.IH" [OF lt cs [symmetric] refl _ rec] ok
      have ih: "cam s' = cam ?s1 \<and> warn_flag s' = warn_flag ?s1 \<and>
         (case r of
            Inr u \<Rightarrow>
              trace s' = trace ?s1 @
                map (\<lambda>i. Call (AT_QueueBuffer (frame_ptr_at (add_long p st) st i) (frame_size (cam ?s1))) (cam ?s1))
                    [0..<nat (queue_length (cam ?s1) - (k + 1))]
          | Inl e \<Rightarrow>
              (\<exists>pre q. trace s' = trace ?s1 @ pre @
                           [Call (AT_QueueBuffer q (frame_size (cam ?s1))) (cam ?s1), Call AT_Flush (cam ?s1)] \<and>
                       rc (dev (trace ?s1 @ pre) (AT_QueueBuffer q (frame_size (cam ?s1)))) \<noteq> AT_SUCCESS \<and>
                       e = failure ''AT_QueueBuffer''
                             (rc (dev (trace ?s1 @ pre) (AT_QueueBuffer q (frame_size (cam ?s1)))))))"
        by simp
      have n: "nat (queue_length (cam s) - k) = Suc (nat (queue_length (cam s) - (k + 1)))"
        using lt by simp
      show ?thesis
      proof (cases r)
        case (Inr u)
        with ih show ?thesis
          by (simp add: n upt_conv_Cons map_Suc_upt [symmetric] del: upt_Suc)
      next
        case (Inl e)
        with ih obtain pre q where
          "trace s' = trace s @ (Call ?c (cam s) # pre) @
                 [Call (AT_QueueBuffer q (frame_size (cam s))) (cam s), Call AT_Flush (cam s)]"
          "rc (dev (trace s @ (Call ?c (cam s) # pre)) (AT_QueueBuffer q (frame_size (cam s)))) \<noteq> AT_SUCCESS"
          "e = failure ''AT_QueueBuffer''
                 (rc (dev (trace s @ (Call ?c (cam s) # pre)) (AT_QueueBuffer q (frame_size (cam s)))))"
          by auto
        with Inl ih show ?thesis by (auto simp del: append_Cons)
      qed
    qed
  qed
qed



lemma quiet_filters:
  "list_all quiet evs \<Longrightarrow>
     queued evs = [] \<and> filter is_mem evs = [] \<and> filter is_warn evs = [] \<and>
     filter is_encoding_warning evs = []"
proof (induction evs)
  case Nil
  then show ?case by (simp add: queued_def)
next
  case (Cons e evs)
  then show ?case
  proof (cases e)
    case (Call c cm)
    with Cons show ?thesis by (cases c) (auto simp: queued_def)
  qed (auto simp: queued_def)
qed

lemma table_search_range:
  "table_search rows i enc \<noteq> - 1 \<Longrightarrow> 0 \<le> i \<Longrightarrow>
     i \<le> table_search rows i enc \<and> table_search rows i enc < i + int (length rows) \<and>
     L (fst (rows ! nat (table_search rows i enc - i))) = enc"
proof (induction rows arbitrary: i)
  case Nil
  then show ?case by simp
next
  case (Cons row rows)
  show ?case
  proof (cases "first_wchar (L (fst row)) = first_wchar enc \<and> L (fst row) = enc")
    case True
    then show ?thesis by simp
  next
    case False
    with Cons.prems have ne: "table_search rows (i + 1) enc \<noteq> - 1" by auto
    from Cons.IH [OF ne] Cons.prems False
    have ih: "i + 1 \<le> table_search rows (i + 1) enc \<and>
       table_search rows (i + 1) enc < i + 1 + int (length rows) \<and>
       L (fst (rows ! nat (table_search rows (i + 1) enc - (i + 1)))) = enc" by simp
    have "nat (table_search rows (i + 1) enc - i) = Suc (nat (table_search rows (i + 1) enc - (i + 1)))"
      using ih by arith
    with ih False show ?thesis by auto
  qed
qed

lemma table_search_none:
  "0 \<le> i \<Longrightarrow> (table_search rows i enc = - 1) = (enc \<notin> L ` fst ` set rows)"
proof (induction rows arbitrary: i)
  case Nil
  then show ?case by simp
next
  case (Cons row rows)
  then show ?case by auto
qed

lemma get_pixel_encoding_value:
  "get_pixel_encoding dev s = (Inr enc, s1) \<Longrightarrow>
     enc = table_search pixel_encoding_table 0 (reported_encoding dev s)"
  by (auto simp: get_pixel_encoding_def prim_defs reported_encoding_def split: if_splits)

lemma start_pixel_format_run:
  assumes "start_pixel_format dev s = (r, s')"
  shows "warn_flag s' = warn_flag s \<and>
     cam s' = (cam s)\<lparr>extract_fn := extract_fn (cam s')\<rparr> \<and>
     (\<exists>evs. trace s' = trace s @ evs \<and> queued evs = [] \<and> filter is_mem evs = [] \<and>
        (case r of
           Inl e \<Rightarrow> early e
         | Inr u \<Rightarrow>
             (let enc = table_search pixel_encoding_table 0 (reported_encoding dev s) in
              if enc = - 1 then
                extract_fn (cam s') = Some Extract_Raw \<and>
                filter is_encoding_warning evs = [Warn ''Unknown pixel encoding.'']
              else
                extract_fn (cam s') = Some (snd (pixel_encoding_table ! nat enc)) \<and>
                filter is_warn evs = [])))"
proof -
  obtain r1 s1 where g: "get_pixel_encoding dev s = (r1, s1)" by force
  from get_pixel_encoding_run [OF g] obtain evs where
    c1: "cam s1 = cam s" and w1: "warn_flag s1 = warn_flag s" and
    t1: "trace s1 = trace s @ evs" and q: "list_all quiet evs" and
    e1: "case r1 of Inl e \<Rightarrow> early e | Inr v \<Rightarrow> True"
    by (auto simp: quiet_run_def)
  note f = quiet_filters [OF q]
  show ?thesis
  proof (cases r1)
    case (Inl e)
    with g assms have "r = Inl e" "s' = s1"
      by (auto simp: start_pixel_format_def bindE_def)
    with Inl c1 w1 t1 f e1 show ?thesis by auto
  next
    case (Inr enc)
    with g have enc: "enc = table_search pixel_encoding_table 0 (reported_encoding dev s)"
      by (simp add: get_pixel_encoding_value)
    show ?thesis
    proof (cases "enc = - 1")
      case True
      with Inr g assms have "r = Inr ()"
        "s' = s1\<lparr>trace := trace s1 @ [Warn ''Unknown pixel encoding.''],
                 cam := (cam s1)\<lparr>extract_fn := Some Extract_Raw\<rparr>\<rparr>"
        by (auto simp: start_pixel_format_def bindE_def warning_def modify_cam_def)
      with True enc c1 w1 t1 f show ?thesis
        by (auto simp: queued_def intro!: exI [of _ "evs @ [Warn ''Unknown pixel encoding.'']"])
    next
      case False
      with Inr g assms have "r = Inr ()"
        "s' = s1\<lparr>cam := (cam s1)\<lparr>extract_fn := Some (snd (pixel_encoding_table ! nat enc))\<rparr>\<rparr>"
        by (auto simp: start_pixel_format_def bindE_def modify_cam_def)
      with False enc c1 w1 t1 f show ?thesis
        by (auto intro!: exI [of _ evs])
    qed
  qed
qed


declare queue_loop.simps [simp del]

lemma bindE_get_cam [simp]: "bindE get_cam f s = f (cam s) s"
  by (simp add: bindE_def get_cam_def)

lemma bindE_ret [simp]: "bindE (ret x) f s = f x s"
  by (simp add: bindE_def ret_def)

lemma bindE_modify_heap [simp]: "bindE (modify_heap g) f s = f () (s\<lparr>heap := g (heap s)\<rparr>)"
  by (simp add: bindE_def modify_heap_def)

lemma bindE_modify_cam [simp]: "bindE (modify_cam g) f s = f () (s\<lparr>cam := g (cam s)\<rparr>)"
  by (simp add: bindE_def modify_cam_def)

lemma bindE_call [simp]:
  "bindE (call dev c) f s = f (dev (trace s) c) (s\<lparr>trace := trace s @ [Call c (cam s)]\<rparr>)"
  by (simp add: bindE_def call_def)

lemma bindE_warning [simp]:
  "bindE (warning m) f s = f () (s\<lparr>trace := trace s @ [Warn m]\<rparr>)"
  by (simp add: bindE_def warning_def)

lemma bindE_assoc [simp]: "bindE (bindE m f) g = bindE m (\<lambda>x. bindE (f x) g)"
  by (auto simp: bindE_def fun_eq_iff split: prod.splits sum.splits)

lemma bindE_Pair_Inl [simp]: "bindE (Pair (Inl e)) f = Pair (Inl e)"
  by (auto simp: bindE_def fun_eq_iff)

lemma bindE_y_error [simp]: "bindE (y_error m) f s = (Inl (Y_error m), s)"
  by (simp add: bindE_def y_error_def)

lemma wrap_long_mod8: "wrap_long x mod 8 = x mod 8"
proof -
  define q where "q = (x + 2 ^ 63) div 2 ^ 64"
  have "(x + 2 ^ 63) mod 2 ^ 64 = x + 2 ^ 63 - 2 ^ 64 * q"
    unfolding q_def by (rule minus_mult_div_eq_mod [symmetric])
  then have "wrap_long x = x + 8 * (- (2 ^ 61 * q))"
    by (simp add: wrap_long_def)
  then show ?thesis
    by (simp only: mod_mult_self2)
qed

lemma wanted_size_mod8: "wanted_size fsize qlen mod 8 = 7"
proof -
  define y where "y = div_long (add_long 7 fsize) 8"
  have "8 dvd wrap_long (y * 8)"
    using wrap_long_mod8 [of "y * 8"] by (simp add: mod_eq_0_iff_dvd)
  then have "8 dvd wrap_long (y * 8) * qlen" by simp
  then have "wrap_long (wrap_long (y * 8) * qlen) mod 8 = 0"
    by (simp add: wrap_long_mod8 mod_eq_0_iff_dvd)
  then have "(7 + wrap_long (wrap_long (y * 8) * qlen)) mod 8 = 7"
    by presburger
  then show ?thesis
    by (simp add: wanted_size_def ROUND_UP_def FRAME_ALIGN_def add_long_def mul_long_def
        wrap_long_mod8 y_def)
qed

lemma wanted_size_nonzero: "wanted_size fsize qlen \<noteq> 0"
  using wanted_size_mod8 [of fsize qlen] by auto



lemma start_buffer_keep:
  "buffer (cam s) \<noteq> NULL \<Longrightarrow> 0 < buffer_size (cam s) \<Longrightarrow>
     start_buffer dev (buffer_size (cam s)) s = (Inr (), s)"
  by (simp add: start_buffer_def ret_def)

lemma start_buffer_replace:
  assumes "buffer (cam s) \<noteq> NULL" "0 < buffer_size (cam s)" "bsize \<noteq> buffer_size (cam s)"
    "bsize \<noteq> 0" "start_buffer dev bsize s = (Inr (), s')"
  shows "trace s' = trace s @
           [Call (P_free (buffer (cam s))) ((cam s)\<lparr>buffer := NULL, buffer_size := 0\<rparr>),
            Call (P_malloc bsize) ((cam s)\<lparr>buffer := NULL, buffer_size := 0\<rparr>)]"
    and "cam s' = (cam s)\<lparr>buffer :=
            rptr (dev (trace s @ [Call (P_free (buffer (cam s))) ((cam s)\<lparr>buffer := NULL, buffer_size := 0\<rparr>)])
                    (P_malloc bsize)),
          buffer_size := bsize\<rparr>"
  using assms
  by (auto simp: start_buffer_def p_free_def p_malloc_def modify_heap_def ret_def modify_cam_def split: if_splits)

lemma start_buffer_run:
  assumes "start_buffer dev bsize s = (r, s')"
  shows "warn_flag s' = warn_flag s \<and>
     cam s' = (cam s)\<lparr>buffer := buffer (cam s'), buffer_size := buffer_size (cam s')\<rparr> \<and>
     (\<exists>evs. trace s' = trace s @ evs \<and> queued evs = [] \<and> filter is_warn evs = []) \<and>
     (case r of Inl e \<Rightarrow> early e | Inr u \<Rightarrow> buffer_size (cam s') = bsize)"
  using assms
  by (auto simp: start_buffer_def p_free_def p_malloc_def modify_heap_def ret_def modify_cam_def y_error_def
      queued_def split: if_splits)


lemma start_cycle_mode_run:
  \<open>start_cycle_mode dev s = (r, s') \<Longrightarrow>
     cam s' = cam s \<and> warn_flag s' = warn_flag s \<and>
     (case r of
        Inr u \<Rightarrow> trace s' = trace s @ [Call (AT_SetEnumString ''CycleMode'' ''Continuous'') (cam s)]
      | Inl e \<Rightarrow>
          trace s' = trace s @ [Call (AT_SetEnumString ''CycleMode'' ''Continuous'') (cam s),
                                Call AT_Flush (cam s)] \<and>
          rc (dev (trace s) (AT_SetEnumString ''CycleMode'' ''Continuous'')) \<noteq> AT_SUCCESS \<and>
          e = failure ''AT_SetEnumString "CycleMode" "Continuous"''
                (rc (dev (trace s) (AT_SetEnumString ''CycleMode'' ''Continuous''))))\<close>
  by (auto simp: start_cycle_mode_def throw_alt ret_def split: if_splits)

lemma start_command_run:
  \<open>start_command dev s = (r, s') \<Longrightarrow>
     warn_flag s' = warn_flag s \<and>
     (case r of
        Inr u \<Rightarrow> trace s' = trace s @ [Call (AT_Command ''AcquisitionStart'') (cam s)] \<and>
                 cam s' = (cam s)\<lparr>acquiring := True\<rparr>
      | Inl e \<Rightarrow>
          cam s' = cam s \<and>
          trace s' = trace s @ [Call (AT_Command ''AcquisitionStart'') (cam s),
                                Call AT_Flush (cam s)] \<and>
          rc (dev (trace s) (AT_Command ''AcquisitionStart'')) \<noteq> AT_SUCCESS \<and>
          e = failure ''AT_Command "AcquisitionStart"''
                (rc (dev (trace s) (AT_Command ''AcquisitionStart''))))\<close>
  by (auto simp: start_command_def throw_alt ret_def modify_cam_def split: if_splits)

lemma start_acquisition_chain:
  assumes "start_acquisition dev s = (r, s')" "\<not> acquiring (cam s)" "0 < queue_length (cam s)"
  shows "(\<exists>e. r = Inl e \<and> start_pixel_format dev s = (Inl e, s')) \<or>
    (\<exists>s1. start_pixel_format dev s = (Inr (), s1) \<and>
      ((\<exists>e. r = Inl e \<and>
          start_geometry dev (s1\<lparr>trace := trace s1 @ [Call AT_Flush (cam s1)]\<rparr>) = (Inl e, s')) \<or>
       (\<exists>s3. start_geometry dev (s1\<lparr>trace := trace s1 @ [Call AT_Flush (cam s1)]\<rparr>) = (Inr (), s3) \<and>
         ((\<exists>e. r = Inl e \<and>
             start_buffer dev (wanted_size (frame_size (cam s3)) (queue_length (cam s3))) s3 = (Inl e, s')) \<or>
          (\<exists>s4. start_buffer dev (wanted_size (frame_size (cam s3)) (queue_length (cam s3))) s3 = (Inr (), s4) \<and>
            ((\<exists>e. r = Inl e \<and>
                queue_loop dev 0 (FIRST_FRAME (cam s4)) (ROUND_UP (frame_size (cam s3)) FRAME_ALIGN) s4
                  = (Inl e, s')) \<or>
             (\<exists>s5. queue_loop dev 0 (FIRST_FRAME (cam s4)) (ROUND_UP (frame_size (cam s3)) FRAME_ALIGN) s4
                      = (Inr (), s5) \<and>
               ((\<exists>e. r = Inl e \<and> start_cycle_mode dev s5 = (Inl e, s')) \<or>
                (\<exists>s6. start_cycle_mode dev s5 = (Inr (), s6) \<and>
                       start_command dev s6 = (r, s'))))))))))"
  using assms
  apply (simp add: start_acquisition_def)
  apply (erule bindE_cases)
   apply simp
  apply simp
  apply (erule bindE_cases)
   apply simp
  apply (simp add: Let_def wanted_size_def [symmetric])
  apply (erule bindE_cases)
   apply simp
  apply simp
  apply (erule bindE_cases)
   apply simp
  apply simp
  apply (erule bindE_cases)
   apply simp
  apply simp
  done


lemma queued_append [simp]: "queued (a @ b) = queued a @ queued b"
  by (simp add: queued_def)

lemma queued_simps [simp]:
  "queued [] = []"
  "queued (Call (AT_QueueBuffer p n) c # evs) = p # queued evs"
  "queued (Call AT_Flush c # evs) = queued evs"
  "queued (Call (AT_SetEnumString f v) c # evs) = queued evs"
  "queued (Call (AT_Command m) c # evs) = queued evs"
  by (simp_all add: queued_def)

lemma queued_map_queue:
  "queued (map (\<lambda>i. Call (AT_QueueBuffer (f i) n) c) xs) = map f xs"
  by (induction xs) simp_all

lemma filter_map_queue:
  "filter is_mem (map (\<lambda>i. Call (AT_QueueBuffer (f i) n) c) xs) = []"
  "filter is_encoding_warning (map (\<lambda>i. Call (AT_QueueBuffer (f i) n) c) xs) = []"
  "filter is_warn (map (\<lambda>i. Call (AT_QueueBuffer (f i) n) c) xs) = []"
  by (induction xs) simp_all

lemma no_warn_no_encoding_warning:
  "filter is_warn evs = [] \<Longrightarrow> filter is_encoding_warning evs = []"
proof (induction evs)
  case Nil
  then show ?case by simp
next
  case (Cons e evs)
  then show ?case by (cases e) (auto split: if_splits)
qed

lemma new_events_append: "trace s' = trace s @ evs \<Longrightarrow> new_events s s' = evs"
  by (simp add: new_events_def)

lemma heap_pixel_format: "start_pixel_format dev s = (r, s') \<Longrightarrow> heap s' = heap s"
proof -
  assume run: "start_pixel_format dev s = (r, s')"
  obtain r1 s1 where g: "get_pixel_encoding dev s = (r1, s1)" by force
  from get_pixel_encoding_run [OF g] have h: "heap s1 = heap s"
    by (simp add: quiet_run_def)
  from run g have "s' = s1 \<or> (\<exists>x. s' = s1\<lparr>cam := x\<rparr>) \<or>
      (\<exists>x m. s' = s1\<lparr>trace := trace s1 @ [Warn m], cam := x\<rparr>)"
    by (auto simp: start_pixel_format_def bindE_def warning_def modify_cam_def
        split: sum.splits if_splits)
  with h show ?thesis by auto
qed

lemma heap_queue_loop: "queue_loop dev k p st s = (r, s') \<Longrightarrow> heap s' = heap s"
proof (induction dev k p st s arbitrary: r s' rule: queue_loop.induct)
  case (1 dev k p st s)
  let ?c = "AT_QueueBuffer p (frame_size (cam s))"
  let ?s1 = "s\<lparr>trace := trace s @ [Call ?c (cam s)]\<rparr>"
  have cs: "call dev ?c s = (Inr (dev (trace s) ?c), ?s1)" by (simp add: call_def)
  show ?case
  proof (cases "k < queue_length (cam s) \<and> rc (dev (trace s) ?c) = AT_SUCCESS")
    case True
    with "1.prems" have rec: "queue_loop dev (k + 1) (add_long p st) st ?s1 = (r, s')"
      by (simp add: queue_loop.simps [of dev k p st s] call_def)
    from "1.IH" [OF _ cs [symmetric] refl _ rec] True show ?thesis by simp
  next
    case False
    with "1.prems" show ?thesis
      by (auto simp: queue_loop.simps [of dev k p st s] call_def throw_alt split: if_splits)
  qed
qed

lemma heap_cycle_mode: "start_cycle_mode dev s = (r, s') \<Longrightarrow> heap s' = heap s"
  by (auto simp: start_cycle_mode_def throw_alt ret_def split: if_splits)

lemma heap_command: "start_command dev s = (r, s') \<Longrightarrow> heap s' = heap s"
  by (auto simp: start_command_def throw_alt ret_def modify_cam_def split: if_splits)

lemma start_acquisition_success:
  assumes run: "start_acquisition dev s = (Inr (), s')" and idle: "\<not> acquiring (cam s)"
  shows "\<exists>s1 s3 s4.
    start_pixel_format dev s = (Inr (), s1) \<and>
    start_buffer dev (wanted_size (frame_size (cam s')) (queue_length (cam s))) s3 = (Inr (), s4) \<and>
    buffer (cam s3) = buffer (cam s) \<and> buffer_size (cam s3) = buffer_size (cam s) \<and>
    buffer (cam s') = buffer (cam s4) \<and> buffer_size (cam s') = buffer_size (cam s4) \<and>
    queue_length (cam s') = queue_length (cam s) \<and> 0 < queue_length (cam s) \<and>
    0 \<le> frame_size (cam s') \<and> frame_size (cam s') \<le> LONG_MAX \<and>
    extract_fn (cam s') = extract_fn (cam s1) \<and> acquiring (cam s') \<and>
    warn_flag s' = warn_flag s \<and> heap s3 = heap s \<and> heap s' = heap s4 \<and>
    trace s' = trace s @ new_events s s' \<and>
    trace s1 = trace s @ new_events s s1 \<and>
    trace s4 = trace s3 @ new_events s3 s4 \<and>
    queued (new_events s s') =
      map (frame_ptr_at (FIRST_FRAME (cam s')) (ROUND_UP (frame_size (cam s')) FRAME_ALIGN))
          [0..<nat (queue_length (cam s))] \<and>
    filter is_mem (new_events s s') = filter is_mem (new_events s3 s4) \<and>
    filter is_encoding_warning (new_events s s') = filter is_encoding_warning (new_events s s1) \<and>
    filter is_warn (new_events s s') = filter is_warn (new_events s s1) \<and>
    (\<exists>pre post. trace s3 = trace s @ pre \<and> trace s' = trace s4 @ post \<and>
       filter is_mem pre = [] \<and> filter is_mem post = [])"
proof -
  have ql: "0 < queue_length (cam s)"
    using run idle by (auto simp: start_acquisition_def y_error_def split: if_splits)
  from start_acquisition_chain [OF run idle ql]
  obtain s1 s3 s4 s5 s6 where
    pf: "start_pixel_format dev s = (Inr (), s1)" and
    ge: "start_geometry dev (s1\<lparr>trace := trace s1 @ [Call AT_Flush (cam s1)]\<rparr>) = (Inr (), s3)" and
    bu: "start_buffer dev (wanted_size (frame_size (cam s3)) (queue_length (cam s3))) s3 = (Inr (), s4)" and
    qu: "queue_loop dev 0 (FIRST_FRAME (cam s4)) (ROUND_UP (frame_size (cam s3)) FRAME_ALIGN) s4 = (Inr (), s5)" and
    cy: "start_cycle_mode dev s5 = (Inr (), s6)" and
    co: "start_command dev s6 = (Inr (), s')"
    by auto
  from start_pixel_format_run [OF pf] obtain x1 e1 where
    c1: "cam s1 = (cam s)\<lparr>extract_fn := x1\<rparr>" and w1: "warn_flag s1 = warn_flag s" and
    t1: "trace s1 = trace s @ e1" and q1: "queued e1 = []" and m1: "filter is_mem e1 = []"
    by blast
  from start_geometry_run [OF ge] obtain a b c d e3 where
    c3: "cam s3 = (cam s1)\<lparr>frame_size := a, frame_width := b, frame_height := c, row_stride := d\<rparr>" and
    w3: "warn_flag s3 = warn_flag s1" and
    t3: "trace s3 = trace s1 @ Call AT_Flush (cam s1) # e3" and q3: "list_all quiet e3" and
    f3: "0 \<le> frame_size (cam s3)" "frame_size (cam s3) \<le> LONG_MAX"
    by (auto simp: quiet_run_def)
  note f3' = quiet_filters [OF q3]
  from start_buffer_run [OF bu] obtain p n e4 where
    c4: "cam s4 = (cam s3)\<lparr>buffer := p, buffer_size := n\<rparr>" and w4: "warn_flag s4 = warn_flag s3" and
    t4: "trace s4 = trace s3 @ e4" and q4: "queued e4 = []" and n4: "filter is_warn e4 = []"
    by auto
  from queue_loop_run [OF qu] have
    c5: "cam s5 = cam s4" and w5: "warn_flag s5 = warn_flag s4" and
    t5: "trace s5 = trace s4 @
          map (\<lambda>i. Call (AT_QueueBuffer
                 (frame_ptr_at (FIRST_FRAME (cam s4)) (ROUND_UP (frame_size (cam s3)) FRAME_ALIGN) i)
                 (frame_size (cam s4))) (cam s4))
              [0..<nat (queue_length (cam s4) - 0)]"
    by auto
  from start_cycle_mode_run [OF cy] have
    c6: "cam s6 = cam s5" and w6: "warn_flag s6 = warn_flag s5" and
    t6: "trace s6 = trace s5 @ [Call (AT_SetEnumString ''CycleMode'' ''Continuous'') (cam s5)]"
    by auto
  from start_command_run [OF co] have
    c7: "cam s' = (cam s6)\<lparr>acquiring := True\<rparr>" and w7: "warn_flag s' = warn_flag s6" and
    t7: "trace s' = trace s6 @ [Call (AT_Command ''AcquisitionStart'') (cam s6)]"
    by auto
  have fs: "frame_size (cam s') = frame_size (cam s3)" "queue_length (cam s3) = queue_length (cam s)"
    by (simp_all add: c7 c6 c5 c4 c3 c1)
  have ff: "FIRST_FRAME (cam s') = FIRST_FRAME (cam s4)"
    by (simp add: FIRST_FRAME_def c7 c6 c5)
  let ?qs = "map (\<lambda>i. Call (AT_QueueBuffer
                 (frame_ptr_at (FIRST_FRAME (cam s4)) (ROUND_UP (frame_size (cam s3)) FRAME_ALIGN) i)
                 (frame_size (cam s4))) (cam s4))
              [0..<nat (queue_length (cam s))]"
  have tr: "trace s' = trace s @ (e1 @ Call AT_Flush (cam s1) # e3 @ e4 @ ?qs @
       [Call (AT_SetEnumString ''CycleMode'' ''Continuous'') (cam s5),
        Call (AT_Command ''AcquisitionStart'') (cam s6)])"
    by (simp add: t7 t6 t5 t4 t3 t1 c4 c3 c1)
  have ne: "new_events s s' = e1 @ Call AT_Flush (cam s1) # e3 @ e4 @ ?qs @
       [Call (AT_SetEnumString ''CycleMode'' ''Continuous'') (cam s5),
        Call (AT_Command ''AcquisitionStart'') (cam s6)]"
    by (rule new_events_append [OF tr])
  have bu': "start_buffer dev (wanted_size (frame_size (cam s')) (queue_length (cam s))) s3 = (Inr (), s4)"
    using bu by (simp add: fs)
  have A: "queued (new_events s s') =
      map (frame_ptr_at (FIRST_FRAME (cam s')) (ROUND_UP (frame_size (cam s')) FRAME_ALIGN))
          [0..<nat (queue_length (cam s))]"
    by (simp add: ne q1 f3' q4 queued_map_queue ff fs)
  have B: "filter is_mem (new_events s s') = filter is_mem (new_events s3 s4)"
    by (simp add: ne m1 f3' filter_map_queue new_events_append [OF t4])
  have C: "filter is_encoding_warning (new_events s s') = filter is_encoding_warning (new_events s s1)"
    by (simp add: ne f3' filter_map_queue new_events_append [OF t1]
        no_warn_no_encoding_warning [OF n4])
  have H: "heap s3 = heap s" "heap s' = heap s4"
    using heap_pixel_format [OF pf] start_geometry_run [OF ge] heap_queue_loop [OF qu]
      heap_cycle_mode [OF cy] heap_command [OF co]
    by (simp_all add: quiet_run_def)
  have E: "filter is_warn (new_events s s') = filter is_warn (new_events s s1)"
    by (simp add: ne f3' filter_map_queue new_events_append [OF t1] n4)
  have D: "\<exists>pre post. trace s3 = trace s @ pre \<and> trace s' = trace s4 @ post \<and>
       filter is_mem pre = [] \<and> filter is_mem post = []"
    apply (rule exI [of _ "e1 @ Call AT_Flush (cam s1) # e3"])
    apply (rule exI [of _ "?qs @ [Call (AT_SetEnumString ''CycleMode'' ''Continuous'') (cam s5),
        Call (AT_Command ''AcquisitionStart'') (cam s6)]"])
    apply (simp add: t7 t6 t5 t3 t1 c4 c3 c1 m1 f3' filter_map_queue)
    done
  show ?thesis
    apply (rule exI [of _ s1], rule exI [of _ s3], rule exI [of _ s4])
    apply (intro conjI)
    using pf bu' ql f3 A B C D E H tr t1 t4
    apply (simp_all add: c7 c6 c5 c4 c3 c1 w7 w6 w5 w4 w3 w1 ne fs new_events_append [OF t1]
        new_events_append [OF t4])
    done
qed

section \<open>The arithmetic of the pool\<close>

lemma wrap_long_id: "- (2 ^ 63) \<le> x \<Longrightarrow> x \<le> LONG_MAX \<Longrightarrow> wrap_long x = x"
  by (simp add: wrap_long_def LONG_MAX_def)

lemma round_up_bounds: "a \<le> round_up a 8 \<and> round_up a 8 \<le> a + 7 \<and> round_up a 8 mod 8 = 0"
  unfolding round_up_def by presburger

lemma ROUND_UP_round_up:
  assumes "0 \<le> a" "a + 7 \<le> LONG_MAX"
  shows "ROUND_UP a FRAME_ALIGN = round_up a 8"
proof -
  have 1: "add_long 7 a = a + 7"
    using assms by (simp add: add_long_def wrap_long_id add.commute)
  have "(a + 7) sdiv 8 = (a + 7) div 8"
    using assms by (simp add: signed_divide_int_def sgn_if)
  moreover have "0 \<le> (a + 7) div 8" "(a + 7) div 8 \<le> a + 7"
    using assms by (simp_all add: pos_imp_zdiv_nonneg_iff)
  ultimately have 2: "div_long (a + 7) 8 = (a + 7) div 8"
    using assms by (simp add: div_long_def wrap_long_id)
  have "0 \<le> (a + 7) div 8 * 8" "(a + 7) div 8 * 8 \<le> a + 7"
    using assms by presburger+
  then have 3: "mul_long ((a + 7) div 8) 8 = (a + 7) div 8 * 8"
    using assms by (simp add: mul_long_def wrap_long_id)
  show ?thesis
    by (simp add: ROUND_UP_def FRAME_ALIGN_def 1 2 3 round_up_def)
qed

lemma wanted_size_exact:
  assumes "0 \<le> fsize" "0 \<le> qlen" "7 + round_up fsize 8 * qlen \<le> LONG_MAX" "1 \<le> qlen"
  shows "wanted_size fsize qlen = 7 + round_up fsize 8 * qlen"
proof -
  have r: "fsize \<le> round_up fsize 8" "round_up fsize 8 \<le> fsize + 7"
    using round_up_bounds [of fsize] by simp_all
  have "round_up fsize 8 * 1 \<le> round_up fsize 8 * qlen"
    using assms r by (intro mult_left_mono) simp_all
  then have le: "round_up fsize 8 \<le> LONG_MAX - 7" using assms by simp
  then have "fsize + 7 \<le> LONG_MAX" using r by simp
  then have 1: "ROUND_UP fsize FRAME_ALIGN = round_up fsize 8"
    using assms by (simp add: ROUND_UP_round_up)
  have nn: "0 \<le> round_up fsize 8 * qlen" using assms r by simp
  then have 2: "mul_long (round_up fsize 8) qlen = round_up fsize 8 * qlen"
    using assms by (simp add: mul_long_def wrap_long_id)
  have 3: "add_long 7 (round_up fsize 8 * qlen) = 7 + round_up fsize 8 * qlen"
    using assms nn by (simp add: add_long_def wrap_long_id)
  show ?thesis by (simp add: wanted_size_def FRAME_ALIGN_def 1 [unfolded FRAME_ALIGN_def] 2 3)
qed

lemma frame_ptr_at_exact:
  "0 \<le> p \<Longrightarrow> 0 \<le> st \<Longrightarrow> p + int i * st \<le> LONG_MAX \<Longrightarrow> frame_ptr_at p st i = p + int i * st"
proof (induction i arbitrary: p)
  case 0
  then show ?case by simp
next
  case (Suc i)
  have "p + st \<le> p + int (Suc i) * st"
    using Suc.prems by (simp add: distrib_right)
  with Suc.prems have a: "add_long p st = p + st"
    by (simp add: add_long_def wrap_long_id)
  have "frame_ptr_at (p + st) st i = (p + st) + int i * st"
    using Suc.prems by (intro Suc.IH) (simp_all add: distrib_right)
  with a show ?case by (simp add: distrib_right)
qed


lemma add_long_exact:
  "- (2 ^ 63) \<le> a + b \<Longrightarrow> a + b \<le> 2 ^ 63 - 1 \<Longrightarrow> add_long a b = a + b"
  by (simp add: add_long_def wrap_long_def)

lemma mul_long_exact:
  "- (2 ^ 63) \<le> a * b \<Longrightarrow> a * b \<le> 2 ^ 63 - 1 \<Longrightarrow> mul_long a b = a * b"
  by (simp add: mul_long_def wrap_long_def)

lemma ROUND_UP_exact:
  "0 \<le> a \<Longrightarrow> a + 7 \<le> 2 ^ 63 - 1 \<Longrightarrow> ROUND_UP a 8 = (a + 7) div 8 * 8"
  using ROUND_UP_round_up [of a] by (simp add: LONG_MAX_def FRAME_ALIGN_def round_up_def)

lemma bindE_queue_loop:
  "bindE (queue_loop dev k p st) f s =
     (case queue_loop dev k p st s of (Inl e, s1) \<Rightarrow> (Inl e, s1) | (Inr x, s1) \<Rightarrow> f x s1)"
  by (simp add: bindE_def)

lemmas run_defs =
  start_acquisition_def start_pixel_format_def get_pixel_encoding_def start_geometry_def
  get_frame_size_def get_frame_width_def get_frame_height_def get_row_stride_def
  start_buffer_def p_malloc_def p_free_def modify_heap_def start_cycle_mode_def start_command_def
  queue_loop.simps throw_alt ret_def Let_def modify_cam_def call_def warning_def y_error_def
  get_cam_def
  pixel_encoding_table_def L_def PIXEL_ENCODING_MAXLEN_def reply_ok_def
  state_open_def camera_open_def NULL_def FRAME_ALIGN_def FIRST_FRAME_def LONG_MAX_def
  add_long_exact mul_long_exact ROUND_UP_exact bindE_queue_loop

lemma queue_loop_demo:
  "fst (queue_loop (demo_sdk enc stride) k p st s) = Inr () \<and>
   cam (snd (queue_loop (demo_sdk enc stride) k p st s)) = cam s"
proof (induction "demo_sdk enc stride" k p st s rule: queue_loop.induct)
  case (1 k p st s)
  show ?case
  proof (cases "k < queue_length (cam s)")
    case False
    then show ?thesis by (simp add: queue_loop.simps)
  next
    case True
    let ?s1 = "s\<lparr>trace := trace s @ [Call (AT_QueueBuffer p (frame_size (cam s))) (cam s)]\<rparr>"
    have "queue_loop (demo_sdk enc stride) k p st s =
          queue_loop (demo_sdk enc stride) (k + 1) (add_long p st) st ?s1"
      using True by (subst queue_loop.simps) (simp add: call_def reply_ok_def)
    moreover have cs: "call (demo_sdk enc stride) (AT_QueueBuffer p (frame_size (cam s))) s =
        (Inr reply_ok, ?s1)"
      by (simp add: call_def)
    have "fst (queue_loop (demo_sdk enc stride) (k + 1) (add_long p st) st ?s1) = Inr () \<and>
        cam (snd (queue_loop (demo_sdk enc stride) (k + 1) (add_long p st) st ?s1)) = cam ?s1"
      by (rule "1.hyps" [OF True cs [symmetric] refl]) (simp add: reply_ok_def)
    ultimately show ?thesis by simp
  qed
qed

lemma bindE_queue_loop_demo:
  "bindE (queue_loop (demo_sdk enc stride) k p st) f s =
     f () (snd (queue_loop (demo_sdk enc stride) k p st s))"
  using queue_loop_demo [of enc stride k p st s]
  by (cases "queue_loop (demo_sdk enc stride) k p st s") (simp add: bindE_def)

section \<open>The reference sessions\<close>

lemma state_restart_cam:
  "cam state_restart =
     camera_open\<lparr>queue_length := 2, buffer := 4100, buffer_size := 39,
                  frame_size := 16, frame_width := 4, frame_height := 2, row_stride := 8,
                  extract_fn := Some Extract_Mono16\<rparr>"
  by (simp add: state_restart_def stop_acquisition_def run_defs)

lemma state_resized_cam:
  "cam state_resized =
     camera_open\<lparr>queue_length := 3, buffer := 4100, buffer_size := 39,
                  frame_size := 16, frame_width := 4, frame_height := 2, row_stride := 8,
                  extract_fn := Some Extract_Mono16\<rparr>"
  by (simp add: state_resized_def Y_andor_set_queue_length_def state_restart_cam modify_cam_def
      ret_def y_error_def camera_open_def)

section \<open>Runs that do not warn about the encoding\<close>

lemma check_frame_warning_not_encoding [simp]:
  "\<not> is_encoding_warning (Warn (CHR ''f'' # m))"
  "\<not> is_encoding_warning (Warn ''Returned frame address is outside our buffers.'')"
  "\<not> is_encoding_warning (Warn ''Returned frame is not aligned with one of our buffers.'')"
  by (simp_all add: raw_data_warnings_def pixel_encoding_table_def)

lemma extends_trans:
  assumes "trace s1 = trace s @ new_events s s1" "trace s2 = trace s1 @ new_events s1 s2"
  shows "trace s2 = trace s @ new_events s s2 \<and> new_events s s2 = new_events s s1 @ new_events s1 s2"
proof -
  define a b where "a = new_events s s1" and "b = new_events s1 s2"
  with assms have 1: "trace s1 = trace s @ a" and 2: "trace s2 = trace s1 @ b" by simp_all
  then have 3: "trace s2 = trace s @ (a @ b)" by simp
  have "new_events s s2 = a @ b" by (rule new_events_append [OF 3])
  with 3 show ?thesis by (simp add: a_def b_def)
qed

lemma calm_refl [simp]: "calm s s"
  by (simp add: calm_def new_events_def)

lemma calm_trans:
  assumes "calm s s1" "calm s1 s2"
  shows "calm s s2"
proof -
  from assms have t: "trace s1 = trace s @ new_events s s1" "trace s2 = trace s1 @ new_events s1 s2"
    by (simp_all only: calm_def)
  from assms have f: "filter is_encoding_warning (new_events s s1) = []"
    "filter is_encoding_warning (new_events s1 s2) = []"
    "cam s2 = cam s" "warn_flag s2 = warn_flag s"
    by (simp_all add: calm_def)
  from extends_trans [OF t] have
    "trace s2 = trace s @ new_events s s2" "new_events s s2 = new_events s s1 @ new_events s1 s2"
    by blast+
  with f show ?thesis by (simp add: calm_def)
qed

lemma calm_event:
  "\<not> is_encoding_warning e \<Longrightarrow> calm s (s\<lparr>trace := trace s @ [e]\<rparr>)"
  by (simp add: calm_def new_events_def)

lemma calm_run_bindE:
  assumes "calm_run P m" "\<And>x. calm_run P (f x)"
  shows "calm_run P (bindE m f)"
  unfolding calm_run_def
proof (intro allI impI, elim conjE)
  fix s r s'
  assume P: "P (cam s)" and run: "bindE m f s = (r, s')"
  from run show "calm s s'"
  proof (cases rule: bindE_cases)
    case (fail e)
    with assms(1) P show ?thesis by (auto simp: calm_run_def)
  next
    case (ok x s1)
    with assms(1) P have c1: "calm s s1" by (auto simp: calm_run_def)
    then have "P (cam s1)" using P by (simp add: calm_def)
    with assms(2) [of x] ok have "calm s1 s'" by (auto simp: calm_run_def)
    with c1 show ?thesis by (rule calm_trans)
  qed
qed

lemma calm_run_get_cam:
  assumes "\<And>c. P c \<Longrightarrow> calm_run P (f c)"
  shows "calm_run P (bindE get_cam f)"
  using assms by (auto simp: calm_run_def)

lemma calm_run_if:
  "calm_run P a \<Longrightarrow> calm_run P b \<Longrightarrow> calm_run P (if c then a else b)"
  by simp

lemma calm_run_prims:
  "calm_run P get_cam"
  "calm_run P (ret x)"
  "calm_run P (y_error m)"
  "calm_run P fault"
  "calm_run P (throw d c)"
  "calm_run P (call dev k)"
  "calm_run P (fprintf_stderr m)"
  "calm_run P (of_option z)"
  by (auto simp: calm_run_def get_cam_def ret_def y_error_def fault_def throw_alt call_def
      fprintf_stderr_def of_option_def calm_event split: if_splits option.splits)

lemma calm_run_warning:
  "\<not> is_encoding_warning (Warn m) \<Longrightarrow> calm_run P (warning m)"
  by (auto simp: calm_run_def warning_def calm_event)

lemmas calm_intros = calm_run_bindE calm_run_get_cam calm_run_if calm_run_prims

lemma check_frame_calm: "calm_run P (check_frame p n v)"
  unfolding check_frame_def Let_def
  by (intro calm_intros calm_run_warning check_frame_warning_not_encoding)
     (simp_all add: raw_data_warnings_def pixel_encoding_table_def)

lemma extract_Raw_calm: "calm_run P (extract_Raw src)"
  unfolding extract_Raw_def by (intro calm_intros)

lemma wait_image_raw_calm:
  "calm_run (\<lambda>c. extract_fn c = Some Extract_Raw) (Y_andor_wait_image dev argc t)"
  unfolding Y_andor_wait_image_def
  by (intro calm_intros check_frame_calm) (simp add: extract_Raw_calm)

lemma wait_images_raw:
  "extract_fn (cam s) = Some Extract_Raw \<Longrightarrow> calm s (wait_images dev ts s)"
proof (induction ts arbitrary: s)
  case Nil
  then show ?case by simp
next
  case (Cons t ts)
  let ?s1 = "snd (Y_andor_wait_image dev 2 t s)"
  have "Y_andor_wait_image dev 2 t s = (fst (Y_andor_wait_image dev 2 t s), ?s1)" by simp
  with wait_image_raw_calm [of dev 2 t] Cons.prems have c1: "calm s ?s1"
    unfolding calm_run_def by blast
  then have "extract_fn (cam ?s1) = Some Extract_Raw"
    using Cons.prems by (simp add: calm_def)
  then have "calm ?s1 (wait_images dev ts ?s1)" by (rule Cons.IH)
  with c1 show ?case by (simp add: calm_trans)
qed

subsection \<open>A device on which one call of the last steps fails\<close>

lemma start_prefix:
  assumes pf: "start_pixel_format dev s = (r1, s1)"
    and ge: "start_geometry dev (s1\<lparr>trace := trace s1 @ [Call AT_Flush (cam s1)]\<rparr>) = (r3, s3)"
    and bu: "start_buffer dev n s3 = (r4, s4)"
  shows "acquiring (cam s1) = acquiring (cam s) \<and> acquiring (cam s3) = acquiring (cam s) \<and>
    acquiring (cam s4) = acquiring (cam s) \<and>
    (\<exists>e1. trace s1 = trace s @ e1) \<and> (\<exists>e3. trace s3 = trace s @ e3) \<and> (\<exists>e4. trace s4 = trace s @ e4)"
proof -
  from start_pixel_format_run [OF pf] obtain x1 e1 where
    c1: "cam s1 = (cam s)\<lparr>extract_fn := x1\<rparr>" and t1: "trace s1 = trace s @ e1"
    by blast
  from start_geometry_run [OF ge] obtain a b c d e3 where
    c3: "cam s3 = (cam s1)\<lparr>frame_size := a, frame_width := b, frame_height := c, row_stride := d\<rparr>" and
    t3: "trace s3 = trace s1 @ Call AT_Flush (cam s1) # e3"
    by (auto simp: quiet_run_def)
  from start_buffer_run [OF bu] obtain p m e4 where
    c4: "cam s4 = (cam s3)\<lparr>buffer := p, buffer_size := m\<rparr>" and t4: "trace s4 = trace s3 @ e4"
    by auto
  show ?thesis by (simp add: c1 c3 c4 t1 t3 t4)
qed

lemma call_failing_other:
  "x \<noteq> c \<Longrightarrow> call (failing (\<lambda>y. y = c) code dev) x = call dev x"
  by (rule ext) (simp add: call_def failing_def)

lemma call_failing_early:
  "call_descr c \<in> set late_descrs \<Longrightarrow> call_descr x = [] \<Longrightarrow>
     call (failing (\<lambda>y. y = c) code dev) x = call dev x"
  by (rule call_failing_other) (auto simp: late_descrs_def)

lemma call_failing_same:
  "call (failing (\<lambda>y. y = c) code dev) c s =
     (Inr ((dev (trace s) c)\<lparr>rc := code\<rparr>), s\<lparr>trace := trace s @ [Call c (cam s)]\<rparr>)"
  by (simp add: call_def failing_def)

lemma early_blocks_failing:
  assumes "call_descr c \<in> set late_descrs"
  shows "start_pixel_format (failing (\<lambda>y. y = c) code dev) = start_pixel_format dev"
    and "start_geometry (failing (\<lambda>y. y = c) code dev) = start_geometry dev"
    and "start_buffer (failing (\<lambda>y. y = c) code dev) n = start_buffer dev n"
    and "call (failing (\<lambda>y. y = c) code dev) AT_Flush = call dev AT_Flush"
  by (simp_all add: start_pixel_format_def get_pixel_encoding_def start_geometry_def
      get_frame_size_def get_frame_width_def get_frame_height_def get_row_stride_def
      start_buffer_def p_malloc_def p_free_def call_failing_early [OF assms] cong: if_cong)


lemma queue_loop_failing:
  assumes "queue_loop dev k p st s = (Inr (), s5)" and "code \<noteq> AT_SUCCESS"
  shows "(Call c (cam s) \<in> set (new_events s s5) \<longrightarrow>
           (\<exists>pre post. new_events s s5 = pre @ Call c (cam s) # post \<and>
              queue_loop (failing (\<lambda>y. y = c) code dev) k p st s =
                (Inl (failure (call_descr c) code),
                 s\<lparr>trace := trace s @ pre @ [Call c (cam s), Call AT_Flush (cam s)]\<rparr>))) \<and>
         (Call c (cam s) \<notin> set (new_events s s5) \<longrightarrow>
            queue_loop (failing (\<lambda>y. y = c) code dev) k p st s = (Inr (), s5))"
  using assms
proof (induction dev k p st s arbitrary: s5 rule: queue_loop.induct)
  case (1 dev k p st s)
  let ?c0 = "AT_QueueBuffer p (frame_size (cam s))"
  let ?s1 = "s\<lparr>trace := trace s @ [Call ?c0 (cam s)]\<rparr>"
  let ?dev' = "failing (\<lambda>y. y = c) code dev"
  note good = "1.prems"(1) and code = "1.prems"(2)
  show ?case
  proof (cases "k < queue_length (cam s)")
    case False
    with good have "s5 = s" by (simp add: queue_loop.simps [of dev k p st s])
    with False show ?thesis
      by (simp add: queue_loop.simps [of ?dev' k p st s] new_events_def)
  next
    case lt: True
    have ok: "rc (dev (trace s) ?c0) = AT_SUCCESS"
    proof (rule ccontr)
      assume "rc (dev (trace s) ?c0) \<noteq> AT_SUCCESS"
      with lt good show False
        by (simp add: queue_loop.simps [of dev k p st s] call_def throw_alt)
    qed
    with lt good have rec: "queue_loop dev (k + 1) (add_long p st) st ?s1 = (Inr (), s5)"
      by (simp add: queue_loop.simps [of dev k p st s] call_def)
    have cs: "call dev ?c0 s = (Inr (dev (trace s) ?c0), ?s1)" by (simp add: call_def)
    from queue_loop_run [OF rec] obtain evs where t5: "trace s5 = trace ?s1 @ evs"
      by auto
    then have n1: "new_events ?s1 s5 = evs" by (rule new_events_append)
    from t5 have "trace s5 = trace s @ (Call ?c0 (cam s) # evs)" by simp
    then have n: "new_events s s5 = Call ?c0 (cam s) # evs" by (rule new_events_append)
    show ?thesis
    proof (cases "c = ?c0")
      case True
      have "queue_loop ?dev' k p st s =
          (Inl (failure (call_descr c) code),
           s\<lparr>trace := trace s @ [] @ [Call c (cam s), Call AT_Flush (cam s)]\<rparr>)"
        unfolding True
        by (subst queue_loop.simps)
           (use lt code in \<open>simp add: call_def failing_def throw_alt failure_def\<close>)
      with n True show ?thesis by (intro conjI impI exI [of _ "[]"] exI [of _ evs]) simp_all
    next
      case False
      then have same: "?dev' (trace s) ?c0 = dev (trace s) ?c0" by (simp add: failing_def)
      with lt ok have step: "queue_loop ?dev' k p st s =
          queue_loop ?dev' (k + 1) (add_long p st) st ?s1"
        by (simp add: queue_loop.simps [of ?dev' k p st s] call_def)
      from "1.IH" [OF lt cs [symmetric] refl _ rec code] ok
      have ih: "(Call c (cam s) \<in> set evs \<longrightarrow>
           (\<exists>pre post. evs = pre @ Call c (cam s) # post \<and>
              queue_loop ?dev' (k + 1) (add_long p st) st ?s1 =
                (Inl (failure (call_descr c) code),
                 ?s1\<lparr>trace := trace ?s1 @ pre @ [Call c (cam s), Call AT_Flush (cam s)]\<rparr>))) \<and>
         (Call c (cam s) \<notin> set evs \<longrightarrow>
            queue_loop ?dev' (k + 1) (add_long p st) st ?s1 = (Inr (), s5))"
        by (simp add: n1)
      show ?thesis
      proof (intro conjI impI)
        assume "Call c (cam s) \<in> set (new_events s s5)"
        with n False have "Call c (cam s) \<in> set evs" by simp
        with ih obtain pre post where e: "evs = pre @ Call c (cam s) # post" and
          q: "queue_loop ?dev' (k + 1) (add_long p st) st ?s1 =
                (Inl (failure (call_descr c) code),
                 ?s1\<lparr>trace := trace ?s1 @ pre @ [Call c (cam s), Call AT_Flush (cam s)]\<rparr>)"
          by blast
        show "\<exists>pre post. new_events s s5 = pre @ Call c (cam s) # post \<and>
              queue_loop ?dev' k p st s =
                (Inl (failure (call_descr c) code),
                 s\<lparr>trace := trace s @ pre @ [Call c (cam s), Call AT_Flush (cam s)]\<rparr>)"
          by (rule exI [of _ "Call ?c0 (cam s) # pre"], rule exI [of _ post])
             (simp add: n e step q)
      next
        assume "Call c (cam s) \<notin> set (new_events s s5)"
        with n have "Call c (cam s) \<notin> set evs" by simp
        with ih step show "queue_loop ?dev' k p st s = (Inr (), s5)" by simp
      qed
    qed
  qed
qed

lemma start_cycle_mode_failing:
  assumes "code \<noteq> AT_SUCCESS"
  shows "start_cycle_mode (failing (\<lambda>y. y = AT_SetEnumString ''CycleMode'' ''Continuous'') code dev) s =
      (Inl (failure (call_descr (AT_SetEnumString ''CycleMode'' ''Continuous'')) code),
       s\<lparr>trace := trace s @ [Call (AT_SetEnumString ''CycleMode'' ''Continuous'') (cam s),
                              Call AT_Flush (cam s)]\<rparr>)"
  using assms by (simp add: start_cycle_mode_def call_def failing_def throw_alt failure_def)

lemma start_command_failing:
  assumes "code \<noteq> AT_SUCCESS"
  shows "start_command (failing (\<lambda>y. y = AT_Command ''AcquisitionStart'') code dev) s =
      (Inl (failure (call_descr (AT_Command ''AcquisitionStart'')) code),
       s\<lparr>trace := trace s @ [Call (AT_Command ''AcquisitionStart'') (cam s),
                              Call AT_Flush (cam s)]\<rparr>)"
  using assms by (simp add: start_command_def call_def failing_def throw_alt failure_def)

lemma late_blocks_failing_other:
  assumes "call_descr c \<in> set late_descrs"
  shows "c \<noteq> AT_SetEnumString ''CycleMode'' ''Continuous'' \<Longrightarrow>
     start_cycle_mode (failing (\<lambda>y. y = c) code dev) = start_cycle_mode dev"
    and "c \<noteq> AT_Command ''AcquisitionStart'' \<Longrightarrow>
     start_command (failing (\<lambda>y. y = c) code dev) = start_command dev"
  by (simp_all add: start_cycle_mode_def start_command_def call_failing_other
      call_failing_early [OF assms] cong: if_cong)

lemma start_acquisition_blocks:
  assumes "\<not> acquiring (cam s)" "0 < queue_length (cam s)"
    and "start_pixel_format dev s = (Inr (), s1)"
    and "start_geometry dev (s1\<lparr>trace := trace s1 @ [Call AT_Flush (cam s1)]\<rparr>) = (Inr (), s3)"
    and "start_buffer dev (wanted_size (frame_size (cam s3)) (queue_length (cam s3))) s3 = (Inr (), s4)"
  shows "start_acquisition dev s =
     bindE (queue_loop dev 0 (FIRST_FRAME (cam s4)) (ROUND_UP (frame_size (cam s3)) FRAME_ALIGN)) (\<lambda>_.
     bindE (start_cycle_mode dev) (\<lambda>_. start_command dev)) s4"
  using assms
  by (simp add: start_acquisition_def bindE_def get_cam_def call_def Let_def
      wanted_size_def [symmetric])


lemma state_eqI:
  "cam a = cam b \<Longrightarrow> trace a = trace b \<Longrightarrow> warn_flag a = warn_flag b \<Longrightarrow> heap a = heap b \<Longrightarrow>
     a = b" for a b :: state
  by (rule state.equality) simp_all

lemma camera_idle: "\<not> acquiring c \<Longrightarrow> c\<lparr>acquiring := False\<rparr> = c" for c :: camera
  by (rule camera.equality) simp_all

subsection \<open>Decoders that copy rows\<close>

declare copy_rows.simps [simp del]

lemma take_rows_tight:
  "concat (map (\<lambda>y. take n (drop (y * n) xs)) [0..<h]) = take (h * n) xs"
proof (induction h)
  case 0
  then show ?case by simp
next
  case (Suc h)
  have "Suc h * n = h * n + n" by simp
  then have "take (Suc h * n) xs = take (h * n) xs @ take n (drop (h * n) xs)"
    by (simp only: take_add)
  with Suc show ?case by simp
qed

lemma copy_rows_rows:
  assumes "frame_width c * esz = rsz" "0 \<le> rsz" "rsz \<le> row_stride c"
    and "(frame_height c - 1) * row_stride c + rsz \<le> int (length src)"
    and "int (length dst) = frame_height c * rsz"
    and "0 \<le> y" "y \<le> frame_height c"
  shows "copy_rows c esz rsz src y dst =
     Some (take (nat (y * rsz)) dst @
           concat (map (\<lambda>k. take (nat rsz) (drop (nat (int k * row_stride c)) src))
                     [nat y..<nat (frame_height c)]))"
  using assms
proof (induction c esz rsz src y dst rule: copy_rows.induct)
  case (1 c esz rsz src y dst)
  show ?case
  proof (cases "y < frame_height c")
    case False
    with "1.prems" have "y = frame_height c" by simp
    with "1.prems" show ?thesis by (subst copy_rows.simps) simp
  next
    case True
    let ?d = "take (nat (y * rsz)) dst @ take (nat rsz) (drop (nat (y * row_stride c)) src) @
              drop (nat (y * rsz + rsz)) dst"
    have b1: "y * rsz + rsz \<le> frame_height c * rsz"
    proof -
      have "(y + 1) * rsz \<le> frame_height c * rsz"
        using True "1.prems" by (intro mult_right_mono) simp_all
      then show ?thesis by (simp add: algebra_simps)
    qed
    have b2: "y * row_stride c + rsz \<le> int (length src)"
    proof -
      have "y * row_stride c \<le> (frame_height c - 1) * row_stride c"
        using True "1.prems" by (intro mult_right_mono) simp_all
      with "1.prems" show ?thesis by simp
    qed
    have b3: "0 \<le> y * rsz" "0 \<le> y * row_stride c"
      using "1.prems" by simp_all
    have m: "memcpy dst (y * frame_width c * esz) src (y * row_stride c) rsz = Some ?d"
      using b1 b2 b3 "1.prems" by (simp add: memcpy_def mult.assoc)
    have n1: "nat (y * rsz) + nat rsz \<le> length dst" "nat (y * rsz + rsz) = nat (y * rsz) + nat rsz"
      using b1 b3 "1.prems"(2,5) by arith+
    have n2: "nat (y * row_stride c) + nat rsz \<le> length src"
      using b2 b3 "1.prems"(2) by arith
    have l1: "length (take (nat (y * rsz)) dst) = nat (y * rsz)"
      using n1 by simp
    have l2: "length (take (nat rsz) (drop (nat (y * row_stride c)) src)) = nat rsz"
      using n2 by simp
    have l3: "length (drop (nat (y * rsz + rsz)) dst) = length dst - (nat (y * rsz) + nat rsz)"
      by (simp add: n1(2))
    have "length ?d = length dst"
      unfolding length_append l1 l2 l3 using n1(1) by arith
    with "1.prems"(5) have ld: "int (length ?d) = frame_height c * rsz"
      by (simp only:)
    have n: "nat ((y + 1) * rsz) = nat (y * rsz) + nat rsz"
      using b3 "1.prems" by (simp add: algebra_simps nat_add_distrib)
    have ih: "copy_rows c esz rsz src (y + 1) ?d =
       Some (take (nat ((y + 1) * rsz)) ?d @
         concat (map (\<lambda>k. take (nat rsz) (drop (nat (int k * row_stride c)) src))
                     [nat (y + 1)..<nat (frame_height c)]))"
      by (rule "1.IH" [OF True m]) (use "1.prems" True ld in simp_all)
    have tk: "take (nat ((y + 1) * rsz)) ?d =
       take (nat (y * rsz)) dst @ take (nat rsz) (drop (nat (y * row_stride c)) src)"
      unfolding n using l1 l2 by simp
    have up: "[nat y..<nat (frame_height c)] = nat y # [nat (y + 1)..<nat (frame_height c)]"
      using True "1.prems" by (simp add: upt_conv_Cons nat_add_distrib)
    have "copy_rows c esz rsz src y dst = copy_rows c esz rsz src (y + 1) ?d"
      using True m by (simp add: copy_rows.simps [of c esz rsz src y dst])
    with ih tk up show ?thesis using "1.prems" by simp
  qed
qed


lemma sizeof_pos: "0 < sizeof t"
  by (cases t) simp_all

lemma FUNCTION_mono_rows:
  assumes sz: "sizeof st = sizeof dt" "sizeof_ytype push = sizeof dt"
    and w: "0 \<le> frame_width (cam s)" and h: "0 \<le> frame_height (cam s)"
    and stride: "sizeof dt * frame_width (cam s) \<le> row_stride (cam s)"
      "row_stride (cam s) \<le> LONG_MAX"
    and src: "(frame_height (cam s) - 1) * row_stride (cam s) + sizeof dt * frame_width (cam s)
                \<le> int (length src)"
      "int (length src) \<le> LONG_MAX"
  shows "FUNCTION_mono dt push st src s =
     (Inr (Y_array push [frame_width (cam s), frame_height (cam s)]
             (rows_bytes (cam s) (sizeof dt) src)), s) \<and>
     (row_stride (cam s) = sizeof dt * frame_width (cam s) \<longrightarrow>
        rows_bytes (cam s) (sizeof dt) src =
          bulk_copy src (frame_height (cam s) * (sizeof dt * frame_width (cam s))))"
proof -
  define c where "c = cam s"
  define rsz where "rsz = sizeof dt * frame_width c"
  define dst where "dst = ypush push [frame_width c, frame_height c]"
  note sizeof_pos [of dt]
  with w have r0: "0 \<le> rsz" by (simp add: rsz_def c_def)
  from r0 stride have ts: "to_size rsz = rsz" "to_size (row_stride c) = row_stride c"
    by (simp_all add: to_size_def LONG_MAX_def rsz_def c_def)
  have dl: "int (length dst) = frame_height c * rsz"
    using w h \<open>0 < sizeof dt\<close>
    by (simp add: dst_def ypush_def sz rsz_def c_def algebra_simps)
  have tight: "rows_bytes c (sizeof dt) src = bulk_copy src (frame_height c * rsz)"
    if eq: "row_stride c = rsz"
  proof -
    have "nat (int y * rsz) = y * nat rsz" for y
      using r0 by (simp add: nat_mult_distrib)
    then have "row_bytes c (sizeof dt) src = (\<lambda>y. take (nat rsz) (drop (y * nat rsz) src))"
      by (auto simp: row_bytes_def eq rsz_def [symmetric])
    moreover have "nat (frame_height c * rsz) = nat (frame_height c) * nat rsz"
      using h by (simp add: nat_mult_distrib c_def)
    ultimately show ?thesis
      using take_rows_tight [of "nat rsz" src "nat (frame_height c)"]
      by (simp add: rows_bytes_def bulk_copy_def)
  qed
  have core: "(if row_stride c = rsz then memcpy dst 0 src 0 (to_size (frame_height c * rsz))
               else copy_rows c (sizeof dt) rsz src 0 dst) = Some (rows_bytes c (sizeof dt) src)"
  proof (cases "row_stride c = rsz")
    case True
    with src have le: "frame_height c * rsz \<le> int (length src)"
      by (simp add: c_def rsz_def algebra_simps)
    have ge: "0 \<le> frame_height c * rsz" using h r0 by (simp add: c_def)
    with le src have t: "to_size (frame_height c * rsz) = frame_height c * rsz"
      by (simp add: to_size_def LONG_MAX_def)
    have "memcpy dst 0 src 0 (frame_height c * rsz) = Some (bulk_copy src (frame_height c * rsz))"
      using le ge dl by (simp add: memcpy_def bulk_copy_def)
    with True t tight show ?thesis by simp
  next
    case False
    have "copy_rows c (sizeof dt) rsz src 0 dst =
       Some (take (nat (0 * rsz)) dst @
         concat (map (\<lambda>k. take (nat rsz) (drop (nat (int k * row_stride c)) src))
                   [nat 0..<nat (frame_height c)]))"
      by (rule copy_rows_rows)
         (use r0 stride src dl h in \<open>simp_all add: rsz_def c_def mult.commute\<close>)
    moreover have "row_bytes c (sizeof dt) src =
        (\<lambda>k. take (nat rsz) (drop (nat (int k * row_stride c)) src))"
      by (auto simp: row_bytes_def rsz_def)
    ultimately show ?thesis using False
      by (simp add: rows_bytes_def)
  qed
  have "FUNCTION_mono dt push st src s =
     (Inr (Y_array push [frame_width c, frame_height c] (rows_bytes c (sizeof dt) src)), s)"
    using core
    by (auto simp: FUNCTION_mono_def sz Let_def ts rsz_def [symmetric] c_def [symmetric]
        dst_def [symmetric] of_option_def get_cam_def bindE_def ret_def split: if_splits)
  with tight show ?thesis by (simp add: c_def rsz_def)
qed



lemma table_search_Mono12:
  "table_search pixel_encoding_table 0 (L ''Mono12'') = 3"
  by (simp add: pixel_encoding_table_def L_def)

subsection \<open>The pool across starts\<close>

lemma start_wide_demo:
  "fst (start_acquisition (demo_sdk ''Mono8'' 4) (state_open (2 ^ 61))) = Inr () \<and>
   cam (snd (start_acquisition (demo_sdk ''Mono8'' 4) (state_open (2 ^ 61)))) =
     camera_open\<lparr>queue_length := 2 ^ 61, acquiring := True, buffer := 4100, buffer_size := 7,
                frame_size := 8, frame_width := 4, frame_height := 2, row_stride := 4,
                extract_fn := Some Extract_Mono8\<rparr>"
proof -
  have m: "mul_long 8 2305843009213693952 = 0" by (simp add: mul_long_def wrap_long_def)
  have a: "add_long 7 0 = 7" by (simp add: add_long_def wrap_long_def)
  show ?thesis
    by (simp add: start_acquisition_def start_pixel_format_def get_pixel_encoding_def
        start_geometry_def get_frame_size_def get_frame_width_def get_frame_height_def
        get_row_stride_def start_buffer_def p_malloc_def p_free_def modify_heap_def
        start_cycle_mode_def
        start_command_def throw_alt ret_def Let_def modify_cam_def call_def get_cam_def
        pixel_encoding_table_def L_def PIXEL_ENCODING_MAXLEN_def reply_ok_def
        state_open_def camera_open_def NULL_def FRAME_ALIGN_def LONG_MAX_def
        ROUND_UP_exact m a bindE_queue_loop_demo queue_loop_demo)
qed

lemma state_wide_cam:
  "cam state_wide =
     camera_open\<lparr>queue_length := 2 ^ 62, buffer := 4100, buffer_size := 7,
                frame_size := 8, frame_width := 4, frame_height := 2, row_stride := 4,
                extract_fn := Some Extract_Mono8\<rparr>"
  using start_wide_demo
  by (simp add: state_wide_def Y_andor_set_queue_length_def stop_acquisition_def
      bindE_def get_cam_def call_def ret_def modify_cam_def y_error_def camera_open_def
      reply_ok_def)

lemma wanted_size_wide: "wanted_size 8 (2 ^ 62) = 7"
proof -
  have m: "mul_long 8 4611686018427387904 = 0" by (simp add: mul_long_def wrap_long_def)
  have a: "add_long 7 0 = 7" by (simp add: add_long_def wrap_long_def)
  show ?thesis
    by (simp add: wanted_size_def FRAME_ALIGN_def ROUND_UP_exact LONG_MAX_def m a)
qed

lemma start_wide_again:
  "fst (start_acquisition (demo_sdk ''Mono8'' 4) state_wide) = Inr () \<and>
   cam (snd (start_acquisition (demo_sdk ''Mono8'' 4) state_wide)) =
     (cam state_wide)\<lparr>acquiring := True\<rparr>"
proof -
  have m: "mul_long 8 4611686018427387904 = 0" by (simp add: mul_long_def wrap_long_def)
  have a: "add_long 7 0 = 7" by (simp add: add_long_def wrap_long_def)
  show ?thesis
    by (simp add: start_acquisition_def start_pixel_format_def get_pixel_encoding_def
        start_geometry_def get_frame_size_def get_frame_width_def get_frame_height_def
        get_row_stride_def start_buffer_def p_malloc_def p_free_def modify_heap_def
        start_cycle_mode_def
        start_command_def throw_alt ret_def Let_def modify_cam_def call_def get_cam_def
        pixel_encoding_table_def L_def PIXEL_ENCODING_MAXLEN_def reply_ok_def
        state_wide_cam camera_open_def NULL_def FRAME_ALIGN_def LONG_MAX_def
        ROUND_UP_exact m a bindE_queue_loop_demo queue_loop_demo)
qed


lemma start_buffer_replace_heap:
  assumes "buffer (cam s) \<noteq> NULL" "0 < buffer_size (cam s)" "bsize \<noteq> buffer_size (cam s)"
    "bsize \<noteq> 0" "start_buffer dev bsize s = (Inr (), s')"
  shows "heap s' = (heap s)(buffer (cam s) := None,
      rptr (dev (trace s @ [Call (P_free (buffer (cam s))) ((cam s)\<lparr>buffer := NULL, buffer_size := 0\<rparr>)])
              (P_malloc bsize)) \<mapsto>
      rdata (dev (trace s @ [Call (P_free (buffer (cam s))) ((cam s)\<lparr>buffer := NULL, buffer_size := 0\<rparr>)])
              (P_malloc bsize)))"
  using assms
  by (auto simp: start_buffer_def p_free_def p_malloc_def modify_heap_def ret_def modify_cam_def
      split: if_splits)

lemma start_pool:
  assumes run: "start_acquisition dev s = (Inr (), s')" and idle: "\<not> acquiring (cam s)"
    and pool: "buffer (cam s) \<noteq> NULL" "0 < buffer_size (cam s)"
  shows
    "(wanted_size (frame_size (cam s')) (queue_length (cam s')) = buffer_size (cam s) \<longrightarrow>
        buffer (cam s') = buffer (cam s) \<and> buffer_size (cam s') = buffer_size (cam s) \<and>
        filter is_mem (new_events s s') = [] \<and> heap s' = heap s) \<and>
     (wanted_size (frame_size (cam s')) (queue_length (cam s')) \<noteq> buffer_size (cam s) \<longrightarrow>
        (\<exists>pre c post.
            new_events s s' =
              pre @ [Call (P_free (buffer (cam s))) c,
                     Call (P_malloc (wanted_size (frame_size (cam s')) (queue_length (cam s')))) c]
                  @ post \<and>
            filter is_mem pre = [] \<and> filter is_mem post = [] \<and>
            buffer c = NULL \<and> buffer_size c = 0 \<and>
            buffer (cam s') =
              rptr (dev (trace s @ pre @ [Call (P_free (buffer (cam s))) c])
                        (P_malloc (wanted_size (frame_size (cam s')) (queue_length (cam s'))))) \<and>
            buffer_size (cam s') = wanted_size (frame_size (cam s')) (queue_length (cam s')) \<and>
            heap s' = (heap s)(buffer (cam s) := None, buffer (cam s') \<mapsto>
              rdata (dev (trace s @ pre @ [Call (P_free (buffer (cam s))) c])
                        (P_malloc (wanted_size (frame_size (cam s')) (queue_length (cam s'))))))))"
proof -
  let ?n = "wanted_size (frame_size (cam s')) (queue_length (cam s'))"
  from start_acquisition_success [OF run idle] obtain s3 s4 pre post where
    bu: "start_buffer dev (wanted_size (frame_size (cam s')) (queue_length (cam s))) s3 = (Inr (), s4)" and
    b3: "buffer (cam s3) = buffer (cam s)" "buffer_size (cam s3) = buffer_size (cam s)" and
    b4: "buffer (cam s') = buffer (cam s4)" "buffer_size (cam s') = buffer_size (cam s4)" and
    hp: "heap s3 = heap s" "heap s' = heap s4" and
    qe: "queue_length (cam s') = queue_length (cam s)" and
    tr: "trace s' = trace s @ new_events s s'" and
    me: "filter is_mem (new_events s s') = filter is_mem (new_events s3 s4)" and
    t3: "trace s3 = trace s @ pre" and t4: "trace s' = trace s4 @ post" and
    np: "filter is_mem pre = []" "filter is_mem post = []"
    by blast
  from bu qe have bu': "start_buffer dev ?n s3 = (Inr (), s4)" by simp
  show ?thesis
  proof (intro conjI impI)
    assume eq: "?n = buffer_size (cam s)"
    with bu' b3 pool have "s4 = s3"
      using start_buffer_keep [of s3 dev] by simp
    with b3 b4 me hp show "buffer (cam s') = buffer (cam s)"
      and "buffer_size (cam s') = buffer_size (cam s)"
      and "filter is_mem (new_events s s') = []"
      and "heap s' = heap s"
      by (simp_all add: new_events_def)
  next
    assume ne: "?n \<noteq> buffer_size (cam s)"
    let ?c = "(cam s3)\<lparr>buffer := NULL, buffer_size := 0\<rparr>"
    have nz: "?n \<noteq> 0" by (rule wanted_size_nonzero)
    from start_buffer_replace [OF _ _ _ nz bu'] pool ne b3 have
      t: "trace s4 = trace s3 @ [Call (P_free (buffer (cam s))) ?c, Call (P_malloc ?n) ?c]" and
      c: "cam s4 = (cam s3)\<lparr>buffer :=
             rptr (dev (trace s3 @ [Call (P_free (buffer (cam s))) ?c]) (P_malloc ?n)),
           buffer_size := ?n\<rparr>"
      by simp_all
    from start_buffer_replace_heap [OF _ _ _ nz bu'] pool ne b3 hp have
      h: "heap s' = (heap s)(buffer (cam s) := None,
             rptr (dev (trace s3 @ [Call (P_free (buffer (cam s))) ?c]) (P_malloc ?n)) \<mapsto>
             rdata (dev (trace s3 @ [Call (P_free (buffer (cam s))) ?c]) (P_malloc ?n)))"
      by simp
    have "trace s' = trace s @ (pre @ [Call (P_free (buffer (cam s))) ?c, Call (P_malloc ?n) ?c] @ post)"
      by (simp add: t4 t t3)
    then have ne': "new_events s s' = pre @ [Call (P_free (buffer (cam s))) ?c, Call (P_malloc ?n) ?c] @ post"
      by (rule new_events_append)
    show "\<exists>pre c post.
            new_events s s' = pre @ [Call (P_free (buffer (cam s))) c, Call (P_malloc ?n) c] @ post \<and>
            filter is_mem pre = [] \<and> filter is_mem post = [] \<and>
            buffer c = NULL \<and> buffer_size c = 0 \<and>
            buffer (cam s') = rptr (dev (trace s @ pre @ [Call (P_free (buffer (cam s))) c]) (P_malloc ?n)) \<and>
            buffer_size (cam s') = ?n \<and>
            heap s' = (heap s)(buffer (cam s) := None, buffer (cam s') \<mapsto>
              rdata (dev (trace s @ pre @ [Call (P_free (buffer (cam s))) c]) (P_malloc ?n)))"
      apply (rule exI [of _ pre], rule exI [of _ ?c], rule exI [of _ post])
      using ne' np b4 c t3 h by simp
  qed
qed

subsection \<open>The packed 12-bit samples\<close>

lemma fifteen_mask: "(15::int) = mask 4"
  by (simp add: mask_eq_exp_minus_1)

lemma low_sample:
  assumes "0 \<le> lo" "lo < 4096"
  shows "push_bit 4 (uint (word_of_int (drop_bit 4 lo) :: u8)) OR
         (uint (word_of_int ((lo AND 0xF) OR push_bit 4 (hi AND 0xF)) :: u8) AND 0xF) = lo"
proof -
  from assms have lo: "lo = take_bit 12 lo" by (simp add: take_bit_int_eq_self)
  have "push_bit 4 (take_bit 8 (drop_bit 4 (take_bit 12 lo))) OR
        (take_bit 8 ((take_bit 12 lo AND mask 4) OR push_bit 4 (hi AND mask 4)) AND mask 4)
        = take_bit 12 lo"
    by (rule bit_eqI) (auto simp: bit_simps)
  with lo show ?thesis by (simp add: uint_word_of_int_eq fifteen_mask)
qed

lemma high_sample:
  assumes "0 \<le> hi" "hi < 4096"
  shows "push_bit 4 (uint (word_of_int (drop_bit 4 hi) :: u8)) OR
         drop_bit 4 (uint (word_of_int ((lo AND 0xF) OR push_bit 4 (hi AND 0xF)) :: u8)) = hi"
proof -
  from assms have hi: "hi = take_bit 12 hi" by (simp add: take_bit_int_eq_self)
  have "push_bit 4 (take_bit 8 (drop_bit 4 (take_bit 12 hi))) OR
        drop_bit 4 (take_bit 8 ((lo AND mask 4) OR push_bit 4 (take_bit 12 hi AND mask 4)))
        = take_bit 12 hi"
  proof (rule bit_eqI)
    fix n
    show "bit (push_bit 4 (take_bit 8 (drop_bit 4 (take_bit 12 hi))) OR
        drop_bit 4 (take_bit 8 ((lo AND mask 4) OR push_bit 4 (take_bit 12 hi AND mask 4)))) n
        = bit (take_bit 12 hi) n"
      by (cases "4 \<le> n") (auto simp: bit_simps)
  qed
  with hi show ?thesis by (simp add: uint_word_of_int_eq fifteen_mask)
qed

lemma last_sample:
  assumes "0 \<le> lo" "lo < 4096"
  shows "push_bit 4 (uint (word_of_int (drop_bit 4 lo) :: u8)) OR
         (uint (word_of_int (lo AND 0xF) :: u8) AND 0xF) = lo"
proof -
  from assms have lo: "lo = take_bit 12 lo" by (simp add: take_bit_int_eq_self)
  have "push_bit 4 (take_bit 8 (drop_bit 4 (take_bit 12 lo))) OR
        (take_bit 8 (take_bit 12 lo AND mask 4) AND mask 4) = take_bit 12 lo"
    by (rule bit_eqI) (auto simp: bit_simps)
  with lo show ?thesis by (simp add: uint_word_of_int_eq fifteen_mask)
qed


declare pair_loop.simps [simp del] unpack_rows.simps [simp del]

lemma rd_nth: "i < length src \<Longrightarrow> rd src (int i) = Some (uint (src ! i))"
  by (simp add: rd_def)

lemma store_short_eq:
  "2 * i + 2 \<le> length dst \<Longrightarrow>
     store_short dst (int i) v =
       Some (take (2 * i) dst @ short_bytes [v] @ drop (2 * i + 2) dst)"
  by (simp add: store_short_def memcpy_def short_bytes_def nat_add_distrib nat_mult_distrib)

lemma packed_at:
  assumes "take (length bs) (drop a src) = bs" "j < length bs"
  shows "a + j < length src \<and> src ! (a + j) = bs ! j"
proof -
  from assms(1) have "length (take (length bs) (drop a src)) = length bs" by simp
  then have l: "length bs \<le> length src - a" by simp
  with assms(2) have lt: "a + j < length src" by simp
  have "take (length bs) (drop a src) ! j = src ! (a + j)"
    using assms(2) lt by simp
  with assms(1) lt show ?thesis by simp
qed

lemma extract_pair:
  assumes p: "take (length (pack_row (lo # hi # vs))) (drop a src) = pack_row (lo # hi # vs)"
    and r: "0 \<le> lo" "lo < 4096" "0 \<le> hi" "hi < 4096"
  shows "EXTRACTLOWPACKED src (int a) = Some lo" "EXTRACTHIGHPACKED src (int a) = Some hi"
proof -
  from packed_at [OF p, of 0] packed_at [OF p, of 1] packed_at [OF p, of 2]
  have b: "a < length src" "a + 1 < length src" "a + 2 < length src"
    "src ! a = word_of_int (drop_bit 4 lo)"
    "src ! (a + 1) = word_of_int ((lo AND 0xF) OR push_bit 4 (hi AND 0xF))"
    "src ! (a + 2) = word_of_int (drop_bit 4 hi)"
    by simp_all
  have rd: "rd src (int a) = Some (uint (word_of_int (drop_bit 4 lo) :: u8))"
    "rd src (int a + 1) = Some (uint (word_of_int ((lo AND 0xF) OR push_bit 4 (hi AND 0xF)) :: u8))"
    "rd src (int a + 2) = Some (uint (word_of_int (drop_bit 4 hi) :: u8))"
    using b by (simp_all add: rd_def nat_add_distrib)
  show "EXTRACTLOWPACKED src (int a) = Some lo"
    using low_sample [OF r(1,2), of hi] by (simp add: EXTRACTLOWPACKED_def rd)
  show "EXTRACTHIGHPACKED src (int a) = Some hi"
    using high_sample [OF r(3,4), of lo] by (simp add: EXTRACTHIGHPACKED_def rd)
qed

lemma extract_last:
  assumes p: "take (length (pack_row [lo])) (drop a src) = pack_row [lo]"
    and r: "0 \<le> lo" "lo < 4096"
  shows "EXTRACTLOWPACKED src (int a) = Some lo"
proof -
  from packed_at [OF p, of 0] packed_at [OF p, of 1]
  have b: "a < length src" "a + 1 < length src"
    "src ! a = word_of_int (drop_bit 4 lo)"
    "src ! (a + 1) = word_of_int (lo AND 0xF)"
    by simp_all
  have rd: "rd src (int a) = Some (uint (word_of_int (drop_bit 4 lo) :: u8))"
    "rd src (int a + 1) = Some (uint (word_of_int (lo AND 0xF) :: u8))"
    using b by (simp_all add: rd_def nat_add_distrib)
  show ?thesis
    using last_sample [OF r] by (simp add: EXTRACTLOWPACKED_def rd)
qed


lemma short_bytes_simps:
  "short_bytes [] = []"
  "short_bytes (v # vs) = [word_of_int v, word_of_int (drop_bit 8 v)] @ short_bytes vs"
  "short_bytes (xs @ ys) = short_bytes xs @ short_bytes ys"
  "length (short_bytes vs) = 2 * length vs"
  by (induction vs) (simp_all add: short_bytes_def)

lemma patch_take: "length a = n \<Longrightarrow> take n (a @ r) = a"
  by simp

lemma patch_drop: "length a = n \<Longrightarrow> length x = m \<Longrightarrow> drop (n + m + k) (a @ x @ r) = drop k r"
  by simp

lemma store_pair:
  assumes "2 * b + 4 \<le> length dst"
  shows "store_short dst (int b) lo =
           Some (take (2 * b) dst @ short_bytes [lo] @ drop (2 * b + 2) dst)"
    and "store_short (take (2 * b) dst @ short_bytes [lo] @ drop (2 * b + 2) dst) (int b + 1) hi =
           Some (take (2 * b) dst @ short_bytes [lo, hi] @ drop (2 * b + 4) dst)"
proof -
  define A L R where "A = take (2 * b) dst" and "L = short_bytes [lo]"
    and "R = drop (2 * b + 2) dst"
  have lA: "length A = 2 * b" and lL: "length L = 2" and lR: "2 \<le> length R"
    using assms by (simp_all add: A_def L_def R_def short_bytes_simps)
  show "store_short dst (int b) lo = Some (take (2 * b) dst @ short_bytes [lo] @ drop (2 * b + 2) dst)"
    using assms by (intro store_short_eq) simp
  have "store_short (A @ L @ R) (int (b + 1)) hi =
      Some (take (2 * (b + 1)) (A @ L @ R) @ short_bytes [hi] @ drop (2 * (b + 1) + 2) (A @ L @ R))"
    using lA lL lR by (intro store_short_eq) simp
  moreover have "take (2 * (b + 1)) (A @ L @ R) = A @ L"
    using patch_take [of "A @ L" "2 * (b + 1)" R] lA lL by simp
  moreover have "drop (2 * (b + 1) + 2) (A @ L @ R) = drop 2 R"
    using patch_drop [of A "2 * b" L 2 2 R] lA lL by (simp add: algebra_simps)
  moreover have "drop 2 R = drop (2 * b + 4) dst"
  proof -
    have "drop 2 R = drop (2 + (2 * b + 2)) dst" by (simp only: R_def drop_drop)
    also have "2 + (2 * b + 2) = 2 * b + 4" by arith
    finally show ?thesis .
  qed
  moreover have "short_bytes [lo, hi] = L @ short_bytes [hi]"
    by (simp add: L_def short_bytes_simps)
  moreover have "int b + 1 = int (b + 1)" by simp
  ultimately have "store_short (A @ L @ R) (int b + 1) hi =
      Some (A @ short_bytes [lo, hi] @ drop (2 * b + 4) dst)"
    by (simp only: append_assoc)
  then show "store_short (take (2 * b) dst @ short_bytes [lo] @ drop (2 * b + 2) dst) (int b + 1) hi =
      Some (take (2 * b) dst @ short_bytes [lo, hi] @ drop (2 * b + 4) dst)"
    by (simp only: A_def L_def R_def)
qed


lemma pair_loop_pairs:
  assumes "even (length vs)" "\<forall>v\<in>set vs. 0 \<le> v \<and> v < 4096"
    and "take (length (pack_row vs)) (drop a src) = pack_row vs"
    and "2 * (b + length vs) \<le> length dst"
  shows "pair_loop src (int a) dst (int b) (int (b + length vs)) =
     Some (take (2 * b) dst @ short_bytes vs @ drop (2 * (b + length vs)) dst,
           int (a + length (pack_row vs)), int (b + length vs))"
  using assms
proof (induction vs arbitrary: a b dst rule: pack_row.induct)
  case (1 lo hi vs)
  define A LH R e where "A = take (2 * b) dst" and "LH = short_bytes [lo, hi]"
    and "R = drop (2 * b + 4) dst" and "e = int (b + length (lo # hi # vs))"
  have len: "2 * b + 4 \<le> length dst" using "1.prems"(4) by simp
  have lA: "length A = 2 * b" and lLH: "length LH = 4"
    using len by (simp_all add: A_def LH_def short_bytes_simps)
  have r: "0 \<le> lo" "lo < 4096" "0 \<le> hi" "hi < 4096" using "1.prems"(2) by simp_all
  note ep = extract_pair [OF "1.prems"(3) r]
  note sp = store_pair(1) [OF len, of lo, folded A_def]
    store_pair(2) [OF len, of lo hi, folded A_def LH_def R_def]
  have lt: "int b < e" by (simp add: e_def)
  have step: "pair_loop src (int a) dst (int b) e =
      pair_loop src (int a + 3) (A @ LH @ R) (int b + 2) e"
    by (subst pair_loop.simps) (simp only: lt if_True ep sp Option.bind.simps A_def [symmetric])
  have p': "take (length (pack_row vs)) (drop (a + 3) src) = pack_row vs"
  proof -
    have "drop 3 (take (length (pack_row (lo # hi # vs))) (drop a src)) =
        drop 3 (pack_row (lo # hi # vs))"
      by (simp only: "1.prems"(3))
    then show ?thesis by (simp add: drop_take add.commute)
  qed
  have ld: "2 * (b + 2 + length vs) \<le> length (A @ LH @ R)"
    using "1.prems"(4) lA lLH by (simp add: R_def)
  have ih: "pair_loop src (int (a + 3)) (A @ LH @ R) (int (b + 2)) (int (b + 2 + length vs)) =
     Some (take (2 * (b + 2)) (A @ LH @ R) @ short_bytes vs @
             drop (2 * (b + 2 + length vs)) (A @ LH @ R),
           int (a + 3 + length (pack_row vs)), int (b + 2 + length vs))"
    by (rule "1.IH") (use "1.prems" p' ld in simp_all)
  have i: "int a + 3 = int (a + 3)" "int b + 2 = int (b + 2)" "e = int (b + 2 + length vs)"
    by (simp_all add: e_def)
  have t: "take (2 * (b + 2)) (A @ LH @ R) = A @ LH"
    using patch_take [of "A @ LH" "2 * (b + 2)" R] lA lLH by simp
  have d: "drop (2 * (b + 2 + length vs)) (A @ LH @ R) = drop (2 * (b + length (lo # hi # vs))) dst"
  proof -
    have "2 * (b + 2 + length vs) = 2 * b + 4 + 2 * length vs" by simp
    then have "drop (2 * (b + 2 + length vs)) (A @ LH @ R) = drop (2 * length vs) R"
      using patch_drop [of A "2 * b" LH 4 "2 * length vs" R] lA lLH by simp
    also have "\<dots> = drop (2 * length vs + (2 * b + 4)) dst" by (simp only: R_def drop_drop)
    also have "2 * length vs + (2 * b + 4) = 2 * (b + length (lo # hi # vs))" by simp
    finally show ?thesis .
  qed
  have sb: "short_bytes (lo # hi # vs) = LH @ short_bytes vs"
    by (simp add: LH_def short_bytes_simps)
  have pl: "a + 3 + length (pack_row vs) = a + length (pack_row (lo # hi # vs))"
    "b + 2 + length vs = b + length (lo # hi # vs)" by simp_all
  have "pair_loop src (int a) dst (int b) e =
      pair_loop src (int a + 3) (A @ LH @ R) (int b + 2) e"
    by (rule step)
  also have "\<dots> = pair_loop src (int (a + 3)) (A @ LH @ R) (int (b + 2)) (int (b + 2 + length vs))"
    by (simp only: i)
  also have "\<dots> = Some (take (2 * (b + 2)) (A @ LH @ R) @ short_bytes vs @
             drop (2 * (b + 2 + length vs)) (A @ LH @ R),
           int (a + 3 + length (pack_row vs)), int (b + 2 + length vs))"
    by (rule ih)
  also have "\<dots> = Some ((A @ LH) @ short_bytes vs @ drop (2 * (b + length (lo # hi # vs))) dst,
            int (a + length (pack_row (lo # hi # vs))), int (b + length (lo # hi # vs)))"
    by (simp only: t d) (simp only: pl)
  finally have "pair_loop src (int a) dst (int b) e =
      Some ((A @ LH) @ short_bytes vs @ drop (2 * (b + length (lo # hi # vs))) dst,
            int (a + length (pack_row (lo # hi # vs))), int (b + length (lo # hi # vs)))" .
  then show ?case
    by (simp only: e_def sb A_def append_assoc)
next
  case (2 lo)
  then show ?case by simp
next
  case 3
  then show ?case by (subst pair_loop.simps) (simp add: short_bytes_simps)
qed


lemma pack_row_append:
  "even (length xs) \<Longrightarrow> pack_row (xs @ ys) = pack_row xs @ pack_row ys"
  by (induction xs rule: pack_row.induct) simp_all

lemma even_width_eq: "(k::int) AND NOT 1 = 2 * (k div 2)"
  by (rule bit_eqI)
     (auto simp: bit_simps bit_Suc [symmetric] gr0_conv_Suc simp flip: bit_Suc)

lemma odd_width_eq: "((k::int) AND 1 \<noteq> 0) = odd k"
  by (simp add: and_one_eq odd_iff_mod_2_eq_one)

lemma row_decode:
  assumes len: "length r = w" and range: "\<forall>v\<in>set r. 0 \<le> v \<and> v < 4096"
    and packed: "take (length (pack_row r)) (drop a src) = pack_row r"
    and room: "2 * (b + w) \<le> length dst"
  shows "\<exists>d src_ptr dst_ptr.
           pair_loop src (int a) dst (int b) (int (b + 2 * (w div 2))) = Some (d, src_ptr, dst_ptr) \<and>
           (if odd w then Option.bind (EXTRACTLOWPACKED src src_ptr) (store_short d dst_ptr)
            else Some d) =
           Some (take (2 * b) dst @ short_bytes r @ drop (2 * (b + w)) dst)"
proof -
  define ew where "ew = 2 * (w div 2)"
  define re rl where "re = take ew r" and "rl = drop ew r"
  have r: "r = re @ rl" by (simp add: re_def rl_def)
  have ew: "ew \<le> w" by (simp add: ew_def)
  have lre: "length re = ew" using len ew by (simp add: re_def)
  have ev: "even (length re)" by (simp add: lre ew_def)
  have pr: "pack_row r = pack_row re @ pack_row rl"
    unfolding r by (rule pack_row_append [OF ev])
  have pe: "take (length (pack_row re)) (drop a src) = pack_row re"
  proof -
    have "take (length (pack_row re)) (take (length (pack_row r)) (drop a src)) = pack_row re"
      by (simp only: packed) (simp add: pr)
    then show ?thesis by (simp add: pr min_def)
  qed
  have pl: "take (length (pack_row rl)) (drop (a + length (pack_row re)) src) = pack_row rl"
  proof -
    have "drop (length (pack_row re)) (take (length (pack_row r)) (drop a src)) = pack_row rl"
      by (simp only: packed) (simp add: pr)
    then show ?thesis by (simp add: pr drop_take add.commute)
  qed
  have room': "2 * (b + length re) \<le> length dst" using room ew lre by simp
  have rg: "\<forall>v\<in>set re. 0 \<le> v \<and> v < 4096" using range by (auto simp: re_def dest: in_set_takeD)
  define d where "d = take (2 * b) dst @ short_bytes re @ drop (2 * (b + ew)) dst"
  have pairs: "pair_loop src (int a) dst (int b) (int (b + ew)) =
      Some (d, int (a + length (pack_row re)), int (b + ew))"
    using pair_loop_pairs [OF ev rg pe room'] by (simp only: lre d_def)
  show ?thesis
  proof (cases "odd w")
    case False
    then have "ew = w" unfolding ew_def by presburger
    with len have "re = r" by (simp add: re_def)
    with False pairs \<open>ew = w\<close> show ?thesis
      by (simp add: ew_def [symmetric] d_def)
  next
    case True
    then have w1: "w = ew + 1" unfolding ew_def by presburger
    have "length rl = 1" using len w1 by (simp add: rl_def)
    then obtain v where rl: "rl = [v]"
      by (cases rl) auto
    have "v \<in> set r" by (subst r) (simp add: rl)
    with range have v: "0 \<le> v" "v < 4096" by simp_all
    have lo: "EXTRACTLOWPACKED src (int (a + length (pack_row re))) = Some v"
      by (rule extract_last [OF pl [unfolded rl] v])
    define A where "A = take (2 * b) dst @ short_bytes re"
    have lA: "length A = 2 * (b + ew)"
      using room' lre by (simp add: A_def short_bytes_simps)
    have dA: "d = A @ drop (2 * (b + ew)) dst" by (simp add: d_def A_def)
    have ld: "length d = length dst" using room' lre lA by (simp add: dA)
    have "store_short d (int (b + ew)) v =
        Some (take (2 * (b + ew)) d @ short_bytes [v] @ drop (2 * (b + ew) + 2) d)"
      using room w1 ld by (intro store_short_eq) simp
    moreover have "take (2 * (b + ew)) d = A"
      unfolding dA using lA by simp
    moreover have "drop (2 * (b + ew) + 2) d = drop (2 * (b + w)) dst"
    proof -
      have "drop (2 * (b + ew) + 2) (A @ drop (2 * (b + ew)) dst) = drop 2 (drop (2 * (b + ew)) dst)"
        using lA by simp
      also have "\<dots> = drop (2 + 2 * (b + ew)) dst" by (simp only: drop_drop)
      also have "2 + 2 * (b + ew) = 2 * (b + w)" using w1 by simp
      finally show ?thesis by (simp only: dA)
    qed
    moreover have "short_bytes r = short_bytes re @ short_bytes [v]"
      by (subst r) (simp add: rl short_bytes_simps)
    ultimately have st: "store_short d (int (b + ew)) v =
        Some (take (2 * b) dst @ short_bytes r @ drop (2 * (b + w)) dst)"
      by (simp add: A_def)
    from True pairs lo st show ?thesis
      by (simp add: ew_def [symmetric])
  qed
qed


lemma unpack_rows_rows:
  assumes W: "frame_width c = int W" and S: "row_stride c = int S" and H: "frame_height c = int H"
    and rows: "length rows = H" "\<forall>r\<in>set rows. length r = W \<and> (\<forall>v\<in>set r. 0 \<le> v \<and> v < 4096)"
    and packed: "\<forall>y<H. take (length (pack_row (rows ! y))) (drop (y * S) src) = pack_row (rows ! y)"
    and dst: "length dst = 2 * (H * W)" and y: "y \<le> H"
  shows "unpack_rows c (odd W) (int (2 * (W div 2))) src (int y) dst =
     Some (take (2 * (y * W)) dst @ short_bytes (concat (drop y rows)))"
  using dst y
proof (induction "H - y" arbitrary: y dst)
  case 0
  then have "y = H" by simp
  with 0 rows show ?case
    by (subst unpack_rows.simps) (simp add: H short_bytes_simps)
next
  case (Suc n)
  then have lt: "y < H" by simp
  define r where "r = rows ! y"
  have rin: "r \<in> set rows" using lt rows by (simp add: r_def)
  with rows have lr: "length r = W" and rg: "\<forall>v\<in>set r. 0 \<le> v \<and> v < 4096" by simp_all
  from packed lt have pk: "take (length (pack_row r)) (drop (y * S) src) = pack_row r"
    by (simp add: r_def)
  have "(y + 1) * W \<le> H * W" using lt by (intro mult_le_mono1) simp
  then have room: "2 * (y * W + W) \<le> length dst" using Suc.prems by simp
  define D where "D = take (2 * (y * W)) dst @ short_bytes r @ drop (2 * (y * W + W)) dst"
  from row_decode [OF lr rg pk room] obtain d sp dp where
    pl: "pair_loop src (int (y * S)) dst (int (y * W)) (int (y * W + 2 * (W div 2))) = Some (d, sp, dp)"
    and od: "(if odd W then Option.bind (EXTRACTLOWPACKED src sp) (store_short d dp) else Some d) =
       Some D"
    unfolding D_def by blast
  have i: "int y * row_stride c = int (y * S)" "int y * frame_width c = int (y * W)"
    "int (y * W) + int (2 * (W div 2)) = int (y * W + 2 * (W div 2))"
    "int y + 1 = int (Suc y)"
    by (simp_all add: S W)
  have step: "unpack_rows c (odd W) (int (2 * (W div 2))) src (int y) dst =
      unpack_rows c (odd W) (int (2 * (W div 2))) src (int (Suc y)) D"
    apply (subst unpack_rows.simps)
    apply (simp only: i H of_nat_less_iff lt if_True pl od Option.bind.simps prod.case)
    done
  have lA: "length (take (2 * (y * W)) dst) = 2 * (y * W)" using room by simp
  have lD: "length D = 2 * (H * W)"
    using room lr Suc.prems lA by (simp add: D_def short_bytes_simps)
  have ih: "unpack_rows c (odd W) (int (2 * (W div 2))) src (int (Suc y)) D =
      Some (take (2 * (Suc y * W)) D @ short_bytes (concat (drop (Suc y) rows)))"
    by (rule Suc.hyps(1)) (use Suc.hyps(2) lt lD in simp_all)
  have t: "take (2 * (Suc y * W)) D = take (2 * (y * W)) dst @ short_bytes r"
    using patch_take [of "take (2 * (y * W)) dst @ short_bytes r" "2 * (Suc y * W)"
        "drop (2 * (y * W + W)) dst"] lA lr
    by (simp add: D_def short_bytes_simps)
  have dr: "drop y rows = r # drop (Suc y) rows"
    using lt rows by (simp add: r_def Cons_nth_drop_Suc)
  show ?case
    unfolding step ih t dr by (simp add: short_bytes_simps)
qed


lemma shorts_le_short_bytes:
  "\<forall>v\<in>set vs. 0 \<le> v \<and> v < 65536 \<Longrightarrow> shorts_le (short_bytes vs) = vs"
proof (induction vs)
  case Nil
  then show ?case by (simp add: short_bytes_simps)
next
  case (Cons v vs)
  then have v: "0 \<le> v" "v < 65536" by simp_all
  have "uint (word_of_int v :: u8) + 256 * uint (word_of_int (drop_bit 8 v) :: u8) =
      v mod 256 + 256 * ((v div 256) mod 256)"
    by (simp add: uint_word_of_int_eq take_bit_eq_mod drop_bit_eq_div)
  also have "\<dots> = v" using v by simp
  finally show ?case using Cons by (simp add: short_bytes_simps)
qed

lemma chop_concat:
  "\<forall>r\<in>set rows. length r = W \<Longrightarrow>
     map (\<lambda>y. take W (drop (y * W) (concat rows))) [0..<length rows] = rows"
proof (induction rows)
  case Nil
  then show ?case by simp
next
  case (Cons r rows)
  then have lr: "length r = W" by simp
  have "map (\<lambda>y. take W (drop (y * W) (concat (r # rows)))) [0..<length (r # rows)] =
      take W (concat (r # rows)) #
      map (\<lambda>y. take W (drop (Suc y * W) (concat (r # rows)))) [0..<length rows]"
    by (simp add: upt_conv_Cons map_Suc_upt [symmetric] del: upt_Suc)
  also have "take W (concat (r # rows)) = r" using lr by simp
  also have "(\<lambda>y. take W (drop (Suc y * W) (concat (r # rows)))) =
      (\<lambda>y. take W (drop (y * W) (concat rows)))"
    using lr by (auto simp: add.commute)
  finally show ?case using Cons by simp
qed

section \<open>Start and stop in the wrong state, and the timeout of a wait\<close>

text \<open>
  Claim C8: calling start while the controller is already acquiring leaves the whole
  session state unchanged (decoder selection, geometry, buffer pool, acquiring flag) and
  produces a warning, not an error: the run returns normally and the state differs from
  the one before only by the warning added to the trace.
\<close>

theorem start_while_acquiring:
  "acquiring (cam s) \<Longrightarrow>
     start_acquisition dev s =
       (Inr (), s\<lparr>trace := trace s @ [Warn ''Camera already acquiring.'']\<rparr>) \<and>
     Y_andor_start_acquisition dev 1 s =
       (Inr (), s\<lparr>trace := trace s @ [Warn ''Camera already acquiring.'']\<rparr>)"
  by (simp add: Y_andor_start_acquisition_def start_acquisition_def bindE_def get_cam_def
      warning_def)

theorem start_while_acquiring_witness:
  "acquiring (cam state_acquiring) \<and>
   start_acquisition dead_sdk state_acquiring =
     (Inr (), state_acquiring\<lparr>trace := [Warn ''Camera already acquiring.'']\<rparr>) \<and>
   cam (snd (start_acquisition dead_sdk state_acquiring)) = cam state_acquiring"
  using start_while_acquiring [of state_acquiring dead_sdk]
  by (simp add: state_acquiring_def)

text \<open>
  Claim C3, as the code has it: when stop is called with final true on an acquiring
  session, a failure of the hardware stop command or of the hardware flush is ignored
  without a warning and without an error, and the controller becomes idle once both calls
  have been made. The run adds the two calls to the trace and nothing else.
\<close>

theorem stop_final_silent:
  "acquiring (cam s) \<Longrightarrow>
     stop_acquisition dev True s =
       (Inr (), s\<lparr>cam := (cam s)\<lparr>acquiring := False\<rparr>,
                  trace := trace s @ [Call (AT_Command ''AcquisitionStop'') (cam s),
                                      Call AT_Flush (cam s)]\<rparr>)"
  by (simp add: stop_acquisition_def bindE_def get_cam_def call_def ret_def modify_cam_def)

theorem stop_final_silent_witness:
  "acquiring (cam state_acquiring) \<and>
   fst (stop_acquisition dead_sdk True state_acquiring) = Inr () \<and>
   \<not> acquiring (cam (snd (stop_acquisition dead_sdk True state_acquiring))) \<and>
   new_events state_acquiring (snd (stop_acquisition dead_sdk True state_acquiring)) =
     [Call (AT_Command ''AcquisitionStop'') (cam state_acquiring),
      Call AT_Flush (cam state_acquiring)]"
  using stop_final_silent [of state_acquiring dead_sdk]
  by (simp add: state_acquiring_def new_events_def)

text \<open>Both calls fail on the dead device, and the final stop warns about neither.\<close>

theorem stop_final_counterexample:
  "acquiring (cam state_acquiring) \<and>
   rc (dead_sdk (trace state_acquiring) (AT_Command ''AcquisitionStop'')) \<noteq> AT_SUCCESS \<and>
   rc (dead_sdk (trace state_acquiring @
                   [Call (AT_Command ''AcquisitionStop'') (cam state_acquiring)]) AT_Flush)
     \<noteq> AT_SUCCESS \<and>
   filter is_warn
     (new_events state_acquiring (snd (stop_acquisition dead_sdk True state_acquiring))) = []"
  by (simp add: stop_acquisition_def bindE_def get_cam_def call_def ret_def modify_cam_def
      state_acquiring_def new_events_def dead_sdk_def reply_ok_def)

text \<open>
  Claim C9: when the wait for a frame times out, the call fails with the error of a
  timed-out \<open>AT_WaitBuffer\<close>, no buffer is queued again, and the session stays as it
  was (acquiring flag, decoder selection, geometry and buffer pool): the state differs
  from the one before only by the \<open>AT_WaitBuffer\<close> call added to the trace.
\<close>

theorem wait_timeout:
  "acquiring (cam s) \<Longrightarrow>
   t = (if timeout < 0 then AT_INFINITE else timeout) \<Longrightarrow>
   rc (dev (trace s) (AT_WaitBuffer t)) = AT_ERR_TIMEDOUT \<Longrightarrow>
   Y_andor_wait_image dev 2 timeout s =
     (Inl (failure ''AT_WaitBuffer'' AT_ERR_TIMEDOUT),
      s\<lparr>trace := trace s @ [Call (AT_WaitBuffer t) (cam s)]\<rparr>) \<and>
   failure ''AT_WaitBuffer'' AT_ERR_TIMEDOUT = Y_error ''failure in AT_WaitBuffer (AT_ERR_TIMEDOUT)''"
  by (simp add: Y_andor_wait_image_def bindE_def get_cam_def call_def throw_def y_error_def
      failure_def)

theorem wait_timeout_witness:
  "acquiring (cam state_acquiring) \<and>
   rc (failing is_wait AT_ERR_TIMEDOUT (demo_sdk ''Mono16'' 8) (trace state_acquiring)
         (AT_WaitBuffer 100)) = AT_ERR_TIMEDOUT \<and>
   fst (Y_andor_wait_image (failing is_wait AT_ERR_TIMEDOUT (demo_sdk ''Mono16'' 8)) 2 100
          state_acquiring) = Inl (Y_error ''failure in AT_WaitBuffer (AT_ERR_TIMEDOUT)'') \<and>
   cam (snd (Y_andor_wait_image (failing is_wait AT_ERR_TIMEDOUT (demo_sdk ''Mono16'' 8)) 2 100
          state_acquiring)) = cam state_acquiring \<and>
   queued (new_events state_acquiring
     (snd (Y_andor_wait_image (failing is_wait AT_ERR_TIMEDOUT (demo_sdk ''Mono16'' 8)) 2 100
          state_acquiring))) = []"
  using wait_timeout [where s = state_acquiring and timeout = 100 and t = 100
      and dev = "failing is_wait AT_ERR_TIMEDOUT (demo_sdk ''Mono16'' 8)"]
  by (simp add: state_acquiring_def failing_def new_events_def queued_def)

section \<open>The layout of the buffer pool\<close>

text \<open>
  Claim C1, for the sizes that fit the \<open>long\<close> arithmetic of the code: after a start
  that succeeds with queue length and frame size at least 1, and when
  \<open>7 + round_up frame_size 8 * queue_length\<close> does not exceed \<open>LONG_MAX\<close> and the
  pool lies at non-negative addresses up to \<open>LONG_MAX\<close>, the size of the pool is
  \<open>7 + round_up frame_size 8 * queue_length\<close>, and the addresses queued with the
  hardware are, in order, the pool base rounded up to the 8-byte boundary plus
  \<open>k * round_up frame_size 8\<close> for every slot index \<open>k\<close> below the queue length.
\<close>

theorem pool_layout:
  assumes run: "start_acquisition dev s = (Inr (), s')" and idle: "\<not> acquiring (cam s)"
    and ql: "1 \<le> queue_length (cam s')" and fs: "1 \<le> frame_size (cam s')"
    and fit: "7 + round_up (frame_size (cam s')) 8 * queue_length (cam s') \<le> LONG_MAX"
    and base: "0 \<le> buffer (cam s')" "buffer (cam s') + buffer_size (cam s') \<le> LONG_MAX"
  shows "buffer_size (cam s') = 7 + round_up (frame_size (cam s')) 8 * queue_length (cam s') \<and>
    queued (new_events s s') =
      map (\<lambda>k. round_up (buffer (cam s')) 8 + int k * round_up (frame_size (cam s')) 8)
          [0..<nat (queue_length (cam s'))]"
proof -
  let ?fs = "frame_size (cam s')" and ?ql = "queue_length (cam s')" and ?b = "buffer (cam s')"
  from start_acquisition_success [OF run idle] obtain s3 s4 where
    bu: "start_buffer dev (wanted_size ?fs (queue_length (cam s))) s3 = (Inr (), s4)" and
    bs: "buffer_size (cam s') = buffer_size (cam s4)" and
    qe: "?ql = queue_length (cam s)" and
    qd: "queued (new_events s s') =
      map (frame_ptr_at (FIRST_FRAME (cam s')) (ROUND_UP ?fs FRAME_ALIGN))
          [0..<nat (queue_length (cam s))]"
    by blast
  have ws: "wanted_size ?fs ?ql = 7 + round_up ?fs 8 * ?ql"
    using ql fs fit by (intro wanted_size_exact) simp_all
  from start_buffer_run [OF bu] have "buffer_size (cam s4) = wanted_size ?fs (queue_length (cam s))"
    by simp
  with bs qe ws have size: "buffer_size (cam s') = 7 + round_up ?fs 8 * ?ql" by simp
  have r: "?fs \<le> round_up ?fs 8" "round_up ?fs 8 \<le> ?fs + 7"
    using round_up_bounds [of ?fs] by simp_all
  have rb: "?b \<le> round_up ?b 8" "round_up ?b 8 \<le> ?b + 7"
    using round_up_bounds [of ?b] by simp_all
  have pos: "0 \<le> round_up ?fs 8 * ?ql" using r fs ql by simp
  have one: "round_up ?fs 8 \<le> round_up ?fs 8 * ?ql"
    using mult_left_mono [of 1 ?ql "round_up ?fs 8"] r fs ql by simp
  have st: "ROUND_UP ?fs FRAME_ALIGN = round_up ?fs 8"
    using fs fit one r by (intro ROUND_UP_round_up) linarith+
  have ff: "FIRST_FRAME (cam s') = round_up ?b 8"
    unfolding FIRST_FRAME_def using base size pos by (intro ROUND_UP_round_up) simp_all
  have pt: "frame_ptr_at (round_up ?b 8) (round_up ?fs 8) k =
      round_up ?b 8 + int k * round_up ?fs 8" if "k < nat ?ql" for k
  proof (rule frame_ptr_at_exact)
    show "0 \<le> round_up ?b 8" using rb base by simp
    show "0 \<le> round_up ?fs 8" using r fs by simp
    have "int k * round_up ?fs 8 \<le> ?ql * round_up ?fs 8"
      using that r fs by (intro mult_right_mono) simp_all
    then show "round_up ?b 8 + int k * round_up ?fs 8 \<le> LONG_MAX"
      using rb base size by (simp add: mult.commute)
  qed
  have "queued (new_events s s') =
      map (\<lambda>k. round_up ?b 8 + int k * round_up ?fs 8) [0..<nat ?ql]"
    unfolding qd st ff qe [symmetric] by (rule map_cong) (simp_all add: pt)
  with size show ?thesis by simp
qed

theorem pool_layout_witness:
  "fst (start_acquisition (demo_sdk ''Mono16'' 8) (state_open 2)) = Inr () \<and>
   \<not> acquiring (cam (state_open 2)) \<and>
   queue_length (cam (snd (start_acquisition (demo_sdk ''Mono16'' 8) (state_open 2)))) = 2 \<and>
   frame_size (cam (snd (start_acquisition (demo_sdk ''Mono16'' 8) (state_open 2)))) = 16 \<and>
   buffer (cam (snd (start_acquisition (demo_sdk ''Mono16'' 8) (state_open 2)))) = 4100 \<and>
   buffer_size (cam (snd (start_acquisition (demo_sdk ''Mono16'' 8) (state_open 2)))) = 39 \<and>
   queued (new_events (state_open 2)
             (snd (start_acquisition (demo_sdk ''Mono16'' 8) (state_open 2)))) = [4104, 4120]"
proof -
  let ?s' = "snd (start_acquisition (demo_sdk ''Mono16'' 8) (state_open 2))"
  have ev: "fst (start_acquisition (demo_sdk ''Mono16'' 8) (state_open 2)) = Inr () \<and>
     cam ?s' = camera_open\<lparr>queue_length := 2, acquiring := True, buffer := 4100, buffer_size := 39,
                  frame_size := 16, frame_width := 4, frame_height := 2, row_stride := 8,
                  extract_fn := Some Extract_Mono16\<rparr>"
    by (simp add: run_defs)
  then have run: "start_acquisition (demo_sdk ''Mono16'' 8) (state_open 2) = (Inr (), ?s')"
    by (simp add: prod_eq_iff)
  have idle: "\<not> acquiring (cam (state_open 2))"
    by (simp add: state_open_def camera_open_def)
  from pool_layout [OF run idle] ev idle show ?thesis
    by (simp add: LONG_MAX_def round_up_def camera_open_def upt_rec)
qed

text \<open>With a queue of \<open>2 ^ 61\<close> frames of 8 bytes the product leaves the range of
  \<open>long\<close>: the start succeeds and the pool has 7 bytes.\<close>

theorem pool_layout_counterexample:
  "fst (start_acquisition (demo_sdk ''Mono8'' 4) (state_open (2 ^ 61))) = Inr () \<and>
   queue_length (cam (snd (start_acquisition (demo_sdk ''Mono8'' 4) (state_open (2 ^ 61))))) = 2 ^ 61 \<and>
   frame_size (cam (snd (start_acquisition (demo_sdk ''Mono8'' 4) (state_open (2 ^ 61))))) = 8 \<and>
   buffer_size (cam (snd (start_acquisition (demo_sdk ''Mono8'' 4) (state_open (2 ^ 61))))) = 7 \<and>
   buffer_size (cam (snd (start_acquisition (demo_sdk ''Mono8'' 4) (state_open (2 ^ 61)))))
     \<noteq> 7 + round_up 8 8 * 2 ^ 61"
proof -
  have m: "mul_long 8 2305843009213693952 = 0" by (simp add: mul_long_def wrap_long_def)
  have a: "add_long 7 0 = 7" by (simp add: add_long_def wrap_long_def)
  have ev: "fst (start_acquisition (demo_sdk ''Mono8'' 4) (state_open (2 ^ 61))) = Inr () \<and>
     cam (snd (start_acquisition (demo_sdk ''Mono8'' 4) (state_open (2 ^ 61)))) =
       camera_open\<lparr>queue_length := 2 ^ 61, acquiring := True, buffer := 4100, buffer_size := 7,
                  frame_size := 8, frame_width := 4, frame_height := 2, row_stride := 4,
                  extract_fn := Some Extract_Mono8\<rparr>"
    by (simp add: start_acquisition_def start_pixel_format_def get_pixel_encoding_def
        start_geometry_def get_frame_size_def get_frame_width_def get_frame_height_def
        get_row_stride_def start_buffer_def p_malloc_def p_free_def modify_heap_def start_cycle_mode_def
        start_command_def throw_alt ret_def Let_def modify_cam_def call_def get_cam_def
        pixel_encoding_table_def L_def PIXEL_ENCODING_MAXLEN_def reply_ok_def
        state_open_def camera_open_def NULL_def FRAME_ALIGN_def LONG_MAX_def
        ROUND_UP_exact m a bindE_queue_loop_demo queue_loop_demo)
  then show ?thesis by (simp add: round_up_def)
qed

section \<open>Reuse of the buffer pool\<close>

text \<open>
  Claim C5, within the range of \<open>long\<close>.  An idle session that holds a pool is started
  and the start succeeds; the size required for the new geometry and queue length does
  not exceed \<open>LONG_MAX\<close>.  If the pool has exactly the required size it is kept: same
  base address, same size, no call of the allocator, and every block of the heap holds
  the bytes it held.  If the pool has another size it is replaced: the only allocator
  calls of the run are \<open>p_free\<close> of the old base followed directly by \<open>p_malloc\<close> of
  the required size, the camera structure has a null buffer of size 0 when \<open>p_free\<close>
  is called, and afterwards the pool is the block that \<open>p_malloc\<close> returned, of the
  required size, and the old block is gone from the heap.
\<close>

theorem pool_reuse:
  assumes run: "start_acquisition dev s = (Inr (), s')" and idle: "\<not> acquiring (cam s)"
    and pool: "buffer (cam s) \<noteq> NULL" "0 < buffer_size (cam s)"
    and range: "required_size (frame_size (cam s')) (queue_length (cam s')) \<le> LONG_MAX"
  shows
    "(required_size (frame_size (cam s')) (queue_length (cam s')) = buffer_size (cam s) \<longrightarrow>
        buffer (cam s') = buffer (cam s) \<and> buffer_size (cam s') = buffer_size (cam s) \<and>
        filter is_mem (new_events s s') = [] \<and> heap s' = heap s) \<and>
     (required_size (frame_size (cam s')) (queue_length (cam s')) \<noteq> buffer_size (cam s) \<longrightarrow>
        (\<exists>pre c post.
            new_events s s' =
              pre @ [Call (P_free (buffer (cam s))) c,
                     Call (P_malloc (required_size (frame_size (cam s')) (queue_length (cam s')))) c]
                  @ post \<and>
            filter is_mem pre = [] \<and> filter is_mem post = [] \<and>
            buffer c = NULL \<and> buffer_size c = 0 \<and>
            buffer (cam s') =
              rptr (dev (trace s @ pre @ [Call (P_free (buffer (cam s))) c])
                        (P_malloc (required_size (frame_size (cam s')) (queue_length (cam s'))))) \<and>
            buffer_size (cam s') = required_size (frame_size (cam s')) (queue_length (cam s')) \<and>
            heap s' = (heap s)(buffer (cam s) := None, buffer (cam s') \<mapsto>
              rdata (dev (trace s @ pre @ [Call (P_free (buffer (cam s))) c])
                        (P_malloc (required_size (frame_size (cam s')) (queue_length (cam s'))))))))"
proof -
  from start_acquisition_success [OF run idle] have
    "queue_length (cam s') = queue_length (cam s)" "0 < queue_length (cam s)"
    "0 \<le> frame_size (cam s')"
    by blast+
  with range have "wanted_size (frame_size (cam s')) (queue_length (cam s')) =
      required_size (frame_size (cam s')) (queue_length (cam s'))"
    by (simp add: required_size_def wanted_size_exact)
  with start_pool [OF run idle pool] show ?thesis by simp
qed


theorem pool_reuse_witness:
  "fst (start_acquisition (demo_sdk ''Mono16'' 8) state_restart) = Inr () \<and>
   \<not> acquiring (cam state_restart) \<and>
   buffer (cam state_restart) = 4100 \<and> buffer_size (cam state_restart) = 39 \<and>
   required_size (frame_size (cam (snd (start_acquisition (demo_sdk ''Mono16'' 8) state_restart))))
               (queue_length (cam (snd (start_acquisition (demo_sdk ''Mono16'' 8) state_restart)))) = 39 \<and>
   buffer (cam (snd (start_acquisition (demo_sdk ''Mono16'' 8) state_restart))) = 4100 \<and>
   buffer_size (cam (snd (start_acquisition (demo_sdk ''Mono16'' 8) state_restart))) = 39 \<and>
   filter is_mem
     (new_events state_restart (snd (start_acquisition (demo_sdk ''Mono16'' 8) state_restart))) = [] \<and>
   heap (snd (start_acquisition (demo_sdk ''Mono16'' 8) state_restart)) = heap state_restart \<and>
   heap state_restart 4100 = Some (replicate 39 0xCD) \<and>
   fst (start_acquisition (demo_sdk ''Mono16'' 8) state_resized) = Inr () \<and>
   \<not> acquiring (cam state_resized) \<and>
   buffer (cam state_resized) = 4100 \<and> buffer_size (cam state_resized) = 39 \<and>
   required_size (frame_size (cam (snd (start_acquisition (demo_sdk ''Mono16'' 8) state_resized))))
               (queue_length (cam (snd (start_acquisition (demo_sdk ''Mono16'' 8) state_resized)))) = 55 \<and>
   buffer_size (cam (snd (start_acquisition (demo_sdk ''Mono16'' 8) state_resized))) = 55 \<and>
   filter is_mem
     (new_events state_resized (snd (start_acquisition (demo_sdk ''Mono16'' 8) state_resized))) =
     [Call (P_free 4100) ((cam state_resized)\<lparr>buffer := 0, buffer_size := 0\<rparr>),
      Call (P_malloc 55) ((cam state_resized)\<lparr>buffer := 0, buffer_size := 0\<rparr>)] \<and>
   heap (snd (start_acquisition (demo_sdk ''Mono16'' 8) state_resized)) 4100 =
     Some (replicate 55 0xCD)"
proof -
  let ?d = "demo_sdk ''Mono16'' 8"
  have w: "required_size 16 2 = 39" "required_size 16 3 = 55"
    by (simp_all add: required_size_def round_up_def)
  have e1: "fst (start_acquisition ?d state_restart) = Inr () \<and>
     cam (snd (start_acquisition ?d state_restart)) = (cam state_restart)\<lparr>acquiring := True\<rparr> \<and>
     filter is_mem (new_events state_restart (snd (start_acquisition ?d state_restart))) = []"
    by (simp add: run_defs state_restart_cam new_events_def)
  have e2: "fst (start_acquisition ?d state_resized) = Inr () \<and>
     cam (snd (start_acquisition ?d state_resized)) =
       (cam state_resized)\<lparr>acquiring := True, buffer_size := 55\<rparr> \<and>
     filter is_mem (new_events state_resized (snd (start_acquisition ?d state_resized))) =
       [Call (P_free 4100) ((cam state_resized)\<lparr>buffer := 0, buffer_size := 0\<rparr>),
        Call (P_malloc 55) ((cam state_resized)\<lparr>buffer := 0, buffer_size := 0\<rparr>)] \<and>
     heap (snd (start_acquisition ?d state_resized)) 4100 = Some (replicate 55 0xCD)"
    by (simp add: run_defs state_resized_cam new_events_def)
  have h0: "heap state_restart 4100 = Some (replicate 39 0xCD)"
    by (simp add: state_restart_def stop_acquisition_def run_defs)
  have r1: "start_acquisition ?d state_restart = (Inr (), snd (start_acquisition ?d state_restart))"
    using e1 by (simp add: prod_eq_iff)
  have r2: "start_acquisition ?d state_resized = (Inr (), snd (start_acquisition ?d state_resized))"
    using e2 by (simp add: prod_eq_iff)
  have i1: "\<not> acquiring (cam state_restart)" "buffer (cam state_restart) \<noteq> NULL"
    "0 < buffer_size (cam state_restart)"
    by (simp_all add: state_restart_cam camera_open_def NULL_def)
  have i2: "\<not> acquiring (cam state_resized)" "buffer (cam state_resized) \<noteq> NULL"
    "0 < buffer_size (cam state_resized)"
    by (simp_all add: state_resized_cam camera_open_def NULL_def)
  have g1: "required_size (frame_size (cam (snd (start_acquisition ?d state_restart))))
      (queue_length (cam (snd (start_acquisition ?d state_restart)))) = 39"
    using e1 w by (simp add: state_restart_cam camera_open_def)
  have g2: "required_size (frame_size (cam (snd (start_acquisition ?d state_resized))))
      (queue_length (cam (snd (start_acquisition ?d state_resized)))) = 55"
    using e2 w by (simp add: state_resized_cam camera_open_def)
  have b: "buffer_size (cam state_restart) = 39" "buffer_size (cam state_resized) = 39"
    "buffer (cam state_restart) = 4100" "buffer (cam state_resized) = 4100"
    by (simp_all add: state_restart_cam state_resized_cam camera_open_def)
  from pool_reuse [OF r1 i1] g1 b have
    k: "buffer (cam (snd (start_acquisition ?d state_restart))) = 4100"
       "buffer_size (cam (snd (start_acquisition ?d state_restart))) = 39"
       "filter is_mem (new_events state_restart (snd (start_acquisition ?d state_restart))) = []"
       "heap (snd (start_acquisition ?d state_restart)) = heap state_restart"
    by (simp_all add: LONG_MAX_def)
  from pool_reuse [OF r2 i2] g2 b have
    "buffer_size (cam (snd (start_acquisition ?d state_resized))) = 55"
    by (auto simp: LONG_MAX_def)
  with k e1 e2 g1 g2 h0 i1 i2 b show ?thesis by simp
qed

text \<open>
  Without the bound the claim fails.  On the session \<open>state_wide\<close> the queue length
  has gone from \<open>2 ^ 61\<close> to \<open>2 ^ 62\<close> slots of 8 bytes, so the required size has
  changed; both products wrap around to 0 in \<open>long\<close>, the pool of 7 bytes is found to
  have the size wanted, and the start keeps it without any call of the allocator.
\<close>

theorem pool_reuse_counterexample:
  "fst (start_acquisition (demo_sdk ''Mono8'' 4) state_wide) = Inr () \<and>
   \<not> acquiring (cam state_wide) \<and>
   buffer (cam state_wide) = 4100 \<and> buffer_size (cam state_wide) = 7 \<and>
   queue_length (cam (snd (start_acquisition (demo_sdk ''Mono8'' 4) state_wide))) = 2 ^ 62 \<and>
   frame_size (cam (snd (start_acquisition (demo_sdk ''Mono8'' 4) state_wide))) = 8 \<and>
   required_size 8 (2 ^ 61) = 2 ^ 64 + 7 \<and>
   required_size 8 (2 ^ 62) = 2 ^ 65 + 7 \<and>
   filter is_mem
     (new_events state_wide (snd (start_acquisition (demo_sdk ''Mono8'' 4) state_wide))) = [] \<and>
   buffer (cam (snd (start_acquisition (demo_sdk ''Mono8'' 4) state_wide))) = 4100 \<and>
   buffer_size (cam (snd (start_acquisition (demo_sdk ''Mono8'' 4) state_wide))) = 7"
proof -
  let ?d = "demo_sdk ''Mono8'' 4"
  let ?s' = "snd (start_acquisition ?d state_wide)"
  note ev = start_wide_again
  then have run: "start_acquisition ?d state_wide = (Inr (), ?s')"
    by (simp add: prod_eq_iff)
  have i: "\<not> acquiring (cam state_wide)" "buffer (cam state_wide) \<noteq> NULL"
    "0 < buffer_size (cam state_wide)"
    by (simp_all add: state_wide_cam camera_open_def NULL_def)
  have c: "queue_length (cam ?s') = 2 ^ 62" "frame_size (cam ?s') = 8"
    "buffer (cam ?s') = 4100" "buffer_size (cam ?s') = 7"
    "buffer (cam state_wide) = 4100" "buffer_size (cam state_wide) = 7"
    using ev by (simp_all add: state_wide_cam camera_open_def)
  have r: "required_size 8 (2 ^ 61) = 2 ^ 64 + 7" "required_size 8 (2 ^ 62) = 2 ^ 65 + 7"
    by (simp_all add: required_size_def round_up_def)
  have "wanted_size (frame_size (cam ?s')) (queue_length (cam ?s')) = buffer_size (cam state_wide)"
    using wanted_size_wide by (simp only: c)
  with start_pool [OF run i] have
    "filter is_mem (new_events state_wide ?s') = []" by blast
  with ev i c r show ?thesis by simp
qed

section \<open>An encoding that is not in the table\<close>

text \<open>
  Claim C6, for one start: when the encoding string that the device reports is not in
  the pixel-encoding table, a start that succeeds, from whatever idle session, selects
  the raw-copy decoder and warns once about the encoding, and however many frames are
  then waited for, the decoder stays the raw copy and that warning stays the only
  warning about the pixel encoding since that start.
\<close>

theorem unknown_encoding:
  assumes run: "start_acquisition dev s = (Inr (), s1)" and idle: "\<not> acquiring (cam s)"
    and unknown: "reported_encoding dev s \<notin> L ` fst ` set pixel_encoding_table"
  shows "extract_fn (cam s1) = Some Extract_Raw \<and>
    filter is_encoding_warning (new_events s s1) = [Warn ''Unknown pixel encoding.''] \<and>
    extract_fn (cam (wait_images dev ts s1)) = Some Extract_Raw \<and>
    filter is_encoding_warning (new_events s (wait_images dev ts s1)) =
      [Warn ''Unknown pixel encoding.'']"
proof -
  from start_acquisition_success [OF run idle] obtain s0 where
    pf: "start_pixel_format dev s = (Inr (), s0)" and
    ex: "extract_fn (cam s1) = extract_fn (cam s0)" and
    tr: "trace s1 = trace s @ new_events s s1" and
    t0: "trace s0 = trace s @ new_events s s0" and
    fe: "filter is_encoding_warning (new_events s s1) = filter is_encoding_warning (new_events s s0)"
    by blast
  have none: "table_search pixel_encoding_table 0 (reported_encoding dev s) = - 1"
    using unknown by (simp add: table_search_none)
  from start_pixel_format_run [OF pf] none t0 have
    raw: "extract_fn (cam s0) = Some Extract_Raw" and
    w0: "filter is_encoding_warning (new_events s s0) = [Warn ''Unknown pixel encoding.'']"
    by auto
  from wait_images_raw [of s1 dev ts] ex raw have "calm s1 (wait_images dev ts s1)"
    by simp
  then have
    c: "cam (wait_images dev ts s1) = cam s1" and
    t: "trace (wait_images dev ts s1) = trace s1 @ new_events s1 (wait_images dev ts s1)" and
    f: "filter is_encoding_warning (new_events s1 (wait_images dev ts s1)) = []"
    by (simp_all only: calm_def)
  from extends_trans [OF tr t] c f fe w0 ex raw show ?thesis by simp
qed


theorem unknown_encoding_witness:
  "fst (start_acquisition (demo_sdk ''Bayer8'' 8) (state_open 2)) = Inr () \<and>
   \<not> acquiring (cam (state_open 2)) \<and>
   reported_encoding (demo_sdk ''Bayer8'' 8) (state_open 2) = L ''Bayer8'' \<and>
   L ''Bayer8'' \<notin> L ` fst ` set pixel_encoding_table \<and>
   extract_fn (cam (wait_images (demo_sdk ''Bayer8'' 8) [100, - 1, 0]
      (snd (start_acquisition (demo_sdk ''Bayer8'' 8) (state_open 2))))) = Some Extract_Raw \<and>
   filter is_encoding_warning (new_events (state_open 2)
      (wait_images (demo_sdk ''Bayer8'' 8) [100, - 1, 0]
         (snd (start_acquisition (demo_sdk ''Bayer8'' 8) (state_open 2))))) =
     [Warn ''Unknown pixel encoding.''] \<and>
   fst (Y_andor_wait_image (demo_sdk ''Bayer8'' 8) 2 100
          (snd (start_acquisition (demo_sdk ''Bayer8'' 8) (state_open 2)))) =
     Inr (Y_array Y_char [16] demo_frame)"
proof -
  let ?d = "demo_sdk ''Bayer8'' 8"
  let ?s1 = "snd (start_acquisition ?d (state_open 2))"
  have ev: "fst (start_acquisition ?d (state_open 2)) = Inr () \<and>
     cam ?s1 = camera_open\<lparr>queue_length := 2, acquiring := True, buffer := 4100, buffer_size := 39,
                  frame_size := 16, frame_width := 4, frame_height := 2, row_stride := 8,
                  extract_fn := Some Extract_Raw\<rparr>"
    by (simp add: run_defs)
  then have run: "start_acquisition ?d (state_open 2) = (Inr (), ?s1)"
    by (simp add: prod_eq_iff)
  have idle: "\<not> acquiring (cam (state_open 2))"
    by (simp add: state_open_def camera_open_def)
  have rep: "reported_encoding ?d (state_open 2) = L ''Bayer8''"
    by (simp add: reported_encoding_def PIXEL_ENCODING_MAXLEN_def L_def reply_ok_def)
  have unk: "L ''Bayer8'' \<notin> L ` fst ` set pixel_encoding_table"
    by (simp add: L_def pixel_encoding_table_def)
  have cam1: "cam ?s1 = camera_open\<lparr>queue_length := 2, acquiring := True, buffer := 4100,
       buffer_size := 39, frame_size := 16, frame_width := 4, frame_height := 2, row_stride := 8,
       extract_fn := Some Extract_Raw\<rparr>"
    using ev by simp
  have frame: "fst (Y_andor_wait_image ?d 2 100 ?s1) = Inr (Y_array Y_char [16] demo_frame)"
    by (simp add: Y_andor_wait_image_def cam1 camera_open_def check_frame_def Let_def
        to_size_def ROUND_UP_size_def FRAME_ALIGN_def ROUND_UP_exact wrap_long_def
        signed_modulo_int_def reply_ok_def ret_def throw_alt extract_Raw_def of_option_def
        memcpy_def ypush_def demo_frame_def)
  from unknown_encoding [OF run idle, of "[100, - 1, 0]"] rep unk ev idle frame show ?thesis
    by simp
qed

text \<open>
  The warning is not given once for an encoding: \<open>start_acquisition\<close> has no flag like
  the \<open>static int warn\<close> of the fallback decoders, and every start that finds the
  encoding outside the table warns again.  A start, a stop and a second start on a
  device that reports \<open>Bayer8\<close> leave two such warnings.
\<close>

theorem unknown_encoding_counterexample:
  "fst (start_acquisition (demo_sdk ''Bayer8'' 8) (state_open 2)) = Inr () \<and>
   fst (stop_acquisition (demo_sdk ''Bayer8'' 8) False
          (snd (start_acquisition (demo_sdk ''Bayer8'' 8) (state_open 2)))) = Inr () \<and>
   fst (start_acquisition (demo_sdk ''Bayer8'' 8)
          (snd (stop_acquisition (demo_sdk ''Bayer8'' 8) False
                  (snd (start_acquisition (demo_sdk ''Bayer8'' 8) (state_open 2)))))) = Inr () \<and>
   extract_fn (cam (snd (start_acquisition (demo_sdk ''Bayer8'' 8)
          (snd (stop_acquisition (demo_sdk ''Bayer8'' 8) False
                  (snd (start_acquisition (demo_sdk ''Bayer8'' 8) (state_open 2)))))))) =
     Some Extract_Raw \<and>
   filter is_encoding_warning
     (new_events (state_open 2)
        (snd (start_acquisition (demo_sdk ''Bayer8'' 8)
          (snd (stop_acquisition (demo_sdk ''Bayer8'' 8) False
                  (snd (start_acquisition (demo_sdk ''Bayer8'' 8) (state_open 2)))))))) =
     [Warn ''Unknown pixel encoding.'', Warn ''Unknown pixel encoding.'']"
  by (simp add: run_defs stop_acquisition_def new_events_def raw_data_warnings_def)

section \<open>A start that fails after the buffers are allocated\<close>

text \<open>
  Claim C4.  Take an idle session and a device on which the start succeeds, and let one
  call of the last three steps fail instead, whatever the code other than
  \<open>AT_SUCCESS\<close>: the queuing of slot \<open>k\<close>, the setting of \<open>CycleMode\<close> to
  \<open>Continuous\<close>, or the command \<open>AcquisitionStart\<close>.  Then the start runs as before
  up to that call, calls \<open>AT_Flush\<close> directly after it and nothing else, and ends in the
  error that names the call and the code.  The session is left as the successful start
  leaves it, except that the camera is not acquiring.
\<close>

theorem start_failure_flushes:
  assumes ok: "start_acquisition dev s = (Inr (), sg)" and idle: "\<not> acquiring (cam s)"
    and code: "code \<noteq> AT_SUCCESS"
    and late: "c = AT_QueueBuffer
                   (frame_ptr_at (FIRST_FRAME (cam sg)) (ROUND_UP (frame_size (cam sg)) FRAME_ALIGN) k)
                   (frame_size (cam sg)) \<and> k < nat (queue_length (cam s)) \<or>
               c = AT_SetEnumString ''CycleMode'' ''Continuous'' \<or>
               c = AT_Command ''AcquisitionStart''"
  shows "\<exists>pre post.
     new_events s sg = pre @ Call c ((cam sg)\<lparr>acquiring := False\<rparr>) # post \<and>
     start_acquisition (failing (\<lambda>y. y = c) code dev) s =
       (Inl (failure (call_descr c) code),
        sg\<lparr>cam := (cam sg)\<lparr>acquiring := False\<rparr>,
           trace := trace s @ pre @ [Call c ((cam sg)\<lparr>acquiring := False\<rparr>),
                                     Call AT_Flush ((cam sg)\<lparr>acquiring := False\<rparr>)]\<rparr>)"
proof -
  let ?dev' = "failing (\<lambda>y. y = c) code dev"
  let ?cyc = "AT_SetEnumString ''CycleMode'' ''Continuous''"
  let ?cmd = "AT_Command ''AcquisitionStart''"
  have ql: "0 < queue_length (cam s)"
    using ok idle by (auto simp: start_acquisition_def y_error_def split: if_splits)
  from start_acquisition_chain [OF ok idle ql]
  obtain s1 s3 s4 s5 s6 where
    pf: "start_pixel_format dev s = (Inr (), s1)" and
    ge: "start_geometry dev (s1\<lparr>trace := trace s1 @ [Call AT_Flush (cam s1)]\<rparr>) = (Inr (), s3)" and
    bu: "start_buffer dev (wanted_size (frame_size (cam s3)) (queue_length (cam s3))) s3 = (Inr (), s4)" and
    qu: "queue_loop dev 0 (FIRST_FRAME (cam s4)) (ROUND_UP (frame_size (cam s3)) FRAME_ALIGN) s4 = (Inr (), s5)" and
    cy: "start_cycle_mode dev s5 = (Inr (), s6)" and
    co: "start_command dev s6 = (Inr (), sg)"
    by auto
  have lc: "call_descr c \<in> set late_descrs"
    using late by (auto simp: late_descrs_def)
  from start_prefix [OF pf ge bu] idle obtain e4 where
    a4: "\<not> acquiring (cam s4)" and t4: "trace s4 = trace s @ e4"
    by auto
  from start_pixel_format_run [OF pf] obtain x1 where
    c1: "cam s1 = (cam s)\<lparr>extract_fn := x1\<rparr>" by blast
  from start_geometry_run [OF ge] obtain a b d e where
    c3: "cam s3 = (cam s1)\<lparr>frame_size := a, frame_width := b, frame_height := d, row_stride := e\<rparr>"
    by auto
  from start_buffer_run [OF bu] obtain p n where
    c4: "cam s4 = (cam s3)\<lparr>buffer := p, buffer_size := n\<rparr>" by auto
  let ?qs = "map (\<lambda>i. Call (AT_QueueBuffer
                 (frame_ptr_at (FIRST_FRAME (cam s4)) (ROUND_UP (frame_size (cam s3)) FRAME_ALIGN) i)
                 (frame_size (cam s4))) (cam s4))
              [0..<nat (queue_length (cam s4) - 0)]"
  from queue_loop_run [OF qu] heap_queue_loop [OF qu] have
    c5: "cam s5 = cam s4" and w5: "warn_flag s5 = warn_flag s4" and h5: "heap s5 = heap s4" and
    t5: "trace s5 = trace s4 @ ?qs"
    by auto
  from start_cycle_mode_run [OF cy] heap_cycle_mode [OF cy] have
    c6: "cam s6 = cam s5" and w6: "warn_flag s6 = warn_flag s5" and h6: "heap s6 = heap s5" and
    t6: "trace s6 = trace s5 @ [Call ?cyc (cam s5)]"
    by auto
  from start_command_run [OF co] heap_command [OF co] have
    c7: "cam sg = (cam s6)\<lparr>acquiring := True\<rparr>" and w7: "warn_flag sg = warn_flag s6" and
    h7: "heap sg = heap s6" and
    t7: "trace sg = trace s6 @ [Call ?cmd (cam s6)]"
    by auto
  let ?cm = "(cam sg)\<lparr>acquiring := False\<rparr>"
  have cm: "?cm = cam s4"
    using camera_idle [OF a4] by (simp add: c7 c6 c5)
  have "trace sg = trace s @ (e4 @ ?qs @ [Call ?cyc (cam s4), Call ?cmd (cam s4)])"
    by (simp add: t7 t6 t5 t4 c6 c5)
  then have ne: "new_events s sg = e4 @ ?qs @ [Call ?cyc (cam s4), Call ?cmd (cam s4)]"
    by (rule new_events_append)
  from t5 have n45: "new_events s4 s5 = ?qs" by (rule new_events_append)
  have start': "start_acquisition ?dev' s =
     bindE (queue_loop ?dev' 0 (FIRST_FRAME (cam s4)) (ROUND_UP (frame_size (cam s3)) FRAME_ALIGN)) (\<lambda>_.
     bindE (start_cycle_mode ?dev') (\<lambda>_. start_command ?dev')) s4"
  proof -
    note eb = early_blocks_failing [OF lc, of code dev]
    have "start_pixel_format ?dev' s = (Inr (), s1)"
      and "start_geometry ?dev' (s1\<lparr>trace := trace s1 @ [Call AT_Flush (cam s1)]\<rparr>) = (Inr (), s3)"
      and "start_buffer ?dev' (wanted_size (frame_size (cam s3)) (queue_length (cam s3))) s3 = (Inr (), s4)"
      unfolding eb by (fact pf ge bu)+
    then show ?thesis by (rule start_acquisition_blocks [OF idle ql])
  qed
  from late consider
    (queue) "c = AT_QueueBuffer
                   (frame_ptr_at (FIRST_FRAME (cam sg)) (ROUND_UP (frame_size (cam sg)) FRAME_ALIGN) k)
                   (frame_size (cam sg))" "k < nat (queue_length (cam s))"
  | (cycle) "c = ?cyc" | (command) "c = ?cmd"
    by blast
  then show ?thesis
  proof cases
    case queue
    have "Call c (cam s4) \<in> set ?qs"
      using queue by (auto simp: c7 c6 c5 c4 c3 c1 FIRST_FRAME_def image_iff intro!: bexI [of _ k])
    with queue_loop_failing [OF qu code, of c] n45 obtain pre post where
      q: "?qs = pre @ Call c (cam s4) # post" and
      f: "queue_loop ?dev' 0 (FIRST_FRAME (cam s4)) (ROUND_UP (frame_size (cam s3)) FRAME_ALIGN) s4 =
            (Inl (failure (call_descr c) code),
             s4\<lparr>trace := trace s4 @ pre @ [Call c (cam s4), Call AT_Flush (cam s4)]\<rparr>)"
      by auto
    have st: "s4\<lparr>trace := trace s4 @ pre @ [Call c (cam s4), Call AT_Flush (cam s4)]\<rparr> =
       sg\<lparr>cam := ?cm, trace := trace s @ (e4 @ pre) @ [Call c ?cm, Call AT_Flush ?cm]\<rparr>"
      by (intro state_eqI) (simp_all add: cm w7 w6 w5 h7 h6 h5 t4)
    have "start_acquisition ?dev' s =
        (Inl (failure (call_descr c) code),
         s4\<lparr>trace := trace s4 @ pre @ [Call c (cam s4), Call AT_Flush (cam s4)]\<rparr>)"
      by (simp add: start' bindE_def f)
    then have run': "start_acquisition ?dev' s =
        (Inl (failure (call_descr c) code),
         sg\<lparr>cam := ?cm, trace := trace s @ (e4 @ pre) @ [Call c ?cm, Call AT_Flush ?cm]\<rparr>)"
      by (simp only: st)
    have nev: "new_events s sg =
        (e4 @ pre) @ Call c ?cm # (post @ [Call ?cyc (cam s4), Call ?cmd (cam s4)])"
      using ne q by (simp add: cm del: upt.simps)
    show ?thesis
      by (rule exI [of _ "e4 @ pre"],
          rule exI [of _ "post @ [Call ?cyc (cam s4), Call ?cmd (cam s4)]"], rule conjI)
         (fact nev, fact run')
  next
    case cycle
    then have "Call c (cam s4) \<notin> set ?qs" by auto
    with queue_loop_failing [OF qu code, of c] n45 have
      q: "queue_loop ?dev' 0 (FIRST_FRAME (cam s4)) (ROUND_UP (frame_size (cam s3)) FRAME_ALIGN) s4 =
            (Inr (), s5)"
      by simp
    have f: "start_cycle_mode ?dev' s5 =
        (Inl (failure (call_descr c) code),
         s5\<lparr>trace := trace s5 @ [Call c (cam s5), Call AT_Flush (cam s5)]\<rparr>)"
      unfolding cycle by (rule start_cycle_mode_failing [OF code])
    have st: "s5\<lparr>trace := trace s5 @ [Call c (cam s5), Call AT_Flush (cam s5)]\<rparr> =
       sg\<lparr>cam := ?cm, trace := trace s @ (e4 @ ?qs) @ [Call c ?cm, Call AT_Flush ?cm]\<rparr>"
      by (intro state_eqI) (simp_all add: cm w7 w6 w5 h7 h6 h5 t5 t4 c5)
    have "start_acquisition ?dev' s =
        (Inl (failure (call_descr c) code),
         s5\<lparr>trace := trace s5 @ [Call c (cam s5), Call AT_Flush (cam s5)]\<rparr>)"
      by (simp add: start' bindE_def q f)
    then have run': "start_acquisition ?dev' s =
        (Inl (failure (call_descr c) code),
         sg\<lparr>cam := ?cm, trace := trace s @ (e4 @ ?qs) @ [Call c ?cm, Call AT_Flush ?cm]\<rparr>)"
      by (simp only: st)
    have nev: "new_events s sg = (e4 @ ?qs) @ Call c ?cm # [Call ?cmd (cam s4)]"
      using ne cycle by (simp add: cm del: upt.simps)
    show ?thesis
      by (rule exI [of _ "e4 @ ?qs"], rule exI [of _ "[Call ?cmd (cam s4)]"], rule conjI)
         (fact nev, fact run')
  next
    case command
    then have "Call c (cam s4) \<notin> set ?qs" by auto
    with queue_loop_failing [OF qu code, of c] n45 have
      q: "queue_loop ?dev' 0 (FIRST_FRAME (cam s4)) (ROUND_UP (frame_size (cam s3)) FRAME_ALIGN) s4 =
            (Inr (), s5)"
      by simp
    from command have "c \<noteq> ?cyc" by simp
    from late_blocks_failing_other(1) [OF lc this] cy have
      y: "start_cycle_mode ?dev' s5 = (Inr (), s6)" by simp
    have f: "start_command ?dev' s6 =
        (Inl (failure (call_descr c) code),
         s6\<lparr>trace := trace s6 @ [Call c (cam s6), Call AT_Flush (cam s6)]\<rparr>)"
      unfolding command by (rule start_command_failing [OF code])
    have st: "s6\<lparr>trace := trace s6 @ [Call c (cam s6), Call AT_Flush (cam s6)]\<rparr> =
       sg\<lparr>cam := ?cm, trace := trace s @ (e4 @ ?qs @ [Call ?cyc (cam s4)]) @
                                 [Call c ?cm, Call AT_Flush ?cm]\<rparr>"
      by (intro state_eqI) (simp_all add: cm w7 w6 w5 h7 h6 h5 t6 t5 t4 c6 c5)
    have "start_acquisition ?dev' s =
        (Inl (failure (call_descr c) code),
         s6\<lparr>trace := trace s6 @ [Call c (cam s6), Call AT_Flush (cam s6)]\<rparr>)"
      by (simp add: start' bindE_def q y f)
    then have run': "start_acquisition ?dev' s =
        (Inl (failure (call_descr c) code),
         sg\<lparr>cam := ?cm, trace := trace s @ (e4 @ ?qs @ [Call ?cyc (cam s4)]) @
                                   [Call c ?cm, Call AT_Flush ?cm]\<rparr>)"
      by (simp only: st)
    have nev: "new_events s sg = (e4 @ ?qs @ [Call ?cyc (cam s4)]) @ Call c ?cm # []"
      using ne command by (simp add: cm del: upt.simps)
    show ?thesis
      by (rule exI [of _ "e4 @ ?qs @ [Call ?cyc (cam s4)]"], rule exI [of _ "[]"], rule conjI)
         (fact nev, fact run')
  qed
qed


theorem start_failure_flushes_witness:
  \<open>fst (start_acquisition (demo_sdk ''Mono16'' 8) (state_open 2)) = Inr () \<and>
   \<not> acquiring (cam (state_open 2)) \<and> AT_ERR_NODATA \<noteq> AT_SUCCESS \<and>
   fst (start_acquisition
          (failing (\<lambda>y. y = AT_QueueBuffer 4120 16) AT_ERR_NODATA (demo_sdk ''Mono16'' 8))
          (state_open 2)) = Inl (Y_error ''failure in AT_QueueBuffer (AT_ERR_NODATA)'') \<and>
   \<not> acquiring (cam (snd (start_acquisition
          (failing (\<lambda>y. y = AT_QueueBuffer 4120 16) AT_ERR_NODATA (demo_sdk ''Mono16'' 8))
          (state_open 2)))) \<and>
   take 2 (rev (trace (snd (start_acquisition
          (failing (\<lambda>y. y = AT_QueueBuffer 4120 16) AT_ERR_NODATA (demo_sdk ''Mono16'' 8))
          (state_open 2))))) =
     [Call AT_Flush (cam state_restart), Call (AT_QueueBuffer 4120 16) (cam state_restart)] \<and>
   fst (start_acquisition
          (failing (\<lambda>y. y = AT_SetEnumString ''CycleMode'' ''Continuous'') AT_ERR_NODATA
             (demo_sdk ''Mono16'' 8))
          (state_open 2)) =
     Inl (Y_error ''failure in AT_SetEnumString "CycleMode" "Continuous" (AT_ERR_NODATA)'') \<and>
   \<not> acquiring (cam (snd (start_acquisition
          (failing (\<lambda>y. y = AT_SetEnumString ''CycleMode'' ''Continuous'') AT_ERR_NODATA
             (demo_sdk ''Mono16'' 8))
          (state_open 2)))) \<and>
   take 2 (rev (trace (snd (start_acquisition
          (failing (\<lambda>y. y = AT_SetEnumString ''CycleMode'' ''Continuous'') AT_ERR_NODATA
             (demo_sdk ''Mono16'' 8))
          (state_open 2))))) =
     [Call AT_Flush (cam state_restart),
      Call (AT_SetEnumString ''CycleMode'' ''Continuous'') (cam state_restart)] \<and>
   fst (start_acquisition
          (failing (\<lambda>y. y = AT_Command ''AcquisitionStart'') AT_ERR_NODATA (demo_sdk ''Mono16'' 8))
          (state_open 2)) =
     Inl (Y_error ''failure in AT_Command "AcquisitionStart" (AT_ERR_NODATA)'') \<and>
   \<not> acquiring (cam (snd (start_acquisition
          (failing (\<lambda>y. y = AT_Command ''AcquisitionStart'') AT_ERR_NODATA (demo_sdk ''Mono16'' 8))
          (state_open 2)))) \<and>
   take 2 (rev (trace (snd (start_acquisition
          (failing (\<lambda>y. y = AT_Command ''AcquisitionStart'') AT_ERR_NODATA (demo_sdk ''Mono16'' 8))
          (state_open 2))))) =
     [Call AT_Flush (cam state_restart),
      Call (AT_Command ''AcquisitionStart'') (cam state_restart)]\<close>
proof -
  let ?d = "demo_sdk ''Mono16'' 8"
  define sg where "sg = snd (start_acquisition ?d (state_open 2))"
  have ev: "fst (start_acquisition ?d (state_open 2)) = Inr () \<and>
     cam (snd (start_acquisition ?d (state_open 2))) =
       camera_open\<lparr>queue_length := 2, acquiring := True, buffer := 4100, buffer_size := 39,
                  frame_size := 16, frame_width := 4, frame_height := 2, row_stride := 8,
                  extract_fn := Some Extract_Mono16\<rparr>"
    by (simp add: run_defs)
  then have run: "start_acquisition ?d (state_open 2) = (Inr (), sg)"
    by (simp add: prod_eq_iff sg_def)
  have idle: "\<not> acquiring (cam (state_open 2))"
    by (simp add: state_open_def camera_open_def)
  have code: "AT_ERR_NODATA \<noteq> AT_SUCCESS" by simp
  have cm: "(cam sg)\<lparr>acquiring := False\<rparr> = cam state_restart"
    using ev by (simp add: sg_def state_restart_cam camera_open_def)
  have slot: "frame_ptr_at (FIRST_FRAME (cam sg)) (ROUND_UP (frame_size (cam sg)) FRAME_ALIGN) 1 = 4120"
    "frame_size (cam sg) = 16" "(1::nat) < nat (queue_length (cam (state_open 2)))"
    using ev
    by (simp_all add: sg_def FIRST_FRAME_def FRAME_ALIGN_def ROUND_UP_exact add_long_exact
        LONG_MAX_def state_open_def)
  have inst: "fst (start_acquisition (failing (\<lambda>y. y = c) AT_ERR_NODATA ?d) (state_open 2)) =
       Inl (Y_error (''failure in '' @ call_descr c @ '' (AT_ERR_NODATA)'')) \<and>
     \<not> acquiring (cam (snd (start_acquisition (failing (\<lambda>y. y = c) AT_ERR_NODATA ?d) (state_open 2)))) \<and>
     take 2 (rev (trace (snd (start_acquisition (failing (\<lambda>y. y = c) AT_ERR_NODATA ?d)
                                (state_open 2))))) =
       [Call AT_Flush (cam state_restart), Call c (cam state_restart)]"
    if "c = AT_QueueBuffer
              (frame_ptr_at (FIRST_FRAME (cam sg)) (ROUND_UP (frame_size (cam sg)) FRAME_ALIGN) 1)
              (frame_size (cam sg)) \<and> 1 < nat (queue_length (cam (state_open 2))) \<or>
        c = AT_SetEnumString ''CycleMode'' ''Continuous'' \<or>
        c = AT_Command ''AcquisitionStart''" for c
  proof -
    from start_failure_flushes [OF run idle code that] obtain pre where
      "start_acquisition (failing (\<lambda>y. y = c) AT_ERR_NODATA ?d) (state_open 2) =
         (Inl (failure (call_descr c) AT_ERR_NODATA),
          sg\<lparr>cam := cam state_restart,
             trace := trace (state_open 2) @ pre @
               [Call c (cam state_restart), Call AT_Flush (cam state_restart)]\<rparr>)"
      unfolding cm by blast
    then show ?thesis
      by (simp add: failure_def state_restart_cam camera_open_def)
  qed
  note i1 = inst [of "AT_QueueBuffer 4120 16", OF disjI1, OF conjI, OF _ slot(3)]
  note i2 = inst [of "AT_SetEnumString ''CycleMode'' ''Continuous''", OF disjI2, OF disjI1, OF refl]
  note i3 = inst [of "AT_Command ''AcquisitionStart''", OF disjI2, OF disjI2, OF refl]
  have q: "AT_QueueBuffer 4120 16 = AT_QueueBuffer
              (frame_ptr_at (FIRST_FRAME (cam sg)) (ROUND_UP (frame_size (cam sg)) FRAME_ALIGN) 1)
              (frame_size (cam sg))"
    using ev
    by (simp add: sg_def FIRST_FRAME_def FRAME_ALIGN_def ROUND_UP_exact add_long_exact
        LONG_MAX_def)
  from i1 [OF q] i2 i3 ev idle show ?thesis by simp
qed

section \<open>The monochrome decoders\<close>



section \<open>The decoder of the encoding Mono12\<close>

text \<open>
  Claim C10.  When the device reports the encoding \<open>Mono12\<close>, a start that succeeds
  selects the decoder \<open>extract_Mono12\<close> and no warning is emitted during the start.
  That decoder is the same function as the one of \<open>Mono16\<close>; on a frame that holds the
  rows it returns, without a warning and without any other change of the state, an
  array of \<open>short\<close> with the 2-byte pixels of each row, found \<open>row_stride\<close> bytes
  after those of the row before; this is not what the raw copy returns.
\<close>

theorem mono12_decoder:
  assumes run: "start_acquisition dev s = (Inr (), s1)" and idle: "\<not> acquiring (cam s)"
    and enc: "reported_encoding dev s = L ''Mono12''"
    and w: "0 \<le> frame_width (cam s1)" and h: "0 \<le> frame_height (cam s1)"
    and stride: "2 * frame_width (cam s1) \<le> row_stride (cam s1)" "row_stride (cam s1) \<le> LONG_MAX"
    and src: "(frame_height (cam s1) - 1) * row_stride (cam s1) + 2 * frame_width (cam s1)
                \<le> int (length src)"
      "int (length src) \<le> LONG_MAX"
  shows "extract_fn (cam s1) = Some Extract_Mono12 \<and>
    filter is_warn (new_events s s1) = [] \<and>
    call_extract Extract_Mono12 = call_extract Extract_Mono16 \<and>
    call_extract Extract_Mono12 src s1 =
      (Inr (Y_array Y_short [frame_width (cam s1), frame_height (cam s1)]
              (rows_bytes (cam s1) 2 src)), s1) \<and>
    fst (call_extract Extract_Mono12 src s1) \<noteq> fst (call_extract Extract_Raw src s1)"
proof -
  from start_acquisition_success [OF run idle] obtain s0 where
    pf: "start_pixel_format dev s = (Inr (), s0)" and
    ex: "extract_fn (cam s1) = extract_fn (cam s0)" and
    t0: "trace s0 = trace s @ new_events s s0" and
    fw: "filter is_warn (new_events s s1) = filter is_warn (new_events s s0)"
    by blast
  have row: "snd (pixel_encoding_table ! nat 3) = Extract_Mono12"
    by (simp add: pixel_encoding_table_def numeral_3_eq_3)
  from start_pixel_format_run [OF pf] obtain evs where
    "trace s0 = trace s @ evs" and
    "extract_fn (cam s0) = Some (snd (pixel_encoding_table ! nat 3)) \<and> filter is_warn evs = []"
    by (auto simp: enc table_search_Mono12 Let_def)
  with t0 row have
    sel: "extract_fn (cam s0) = Some Extract_Mono12" and
    w0: "filter is_warn (new_events s s0) = []"
    by simp_all
  have same: "call_extract Extract_Mono12 = call_extract Extract_Mono16"
    by (simp add: extract_Mono12_def extract_Mono16_def)
  have rows: "call_extract Extract_Mono12 src s1 =
      (Inr (Y_array Y_short [frame_width (cam s1), frame_height (cam s1)]
              (rows_bytes (cam s1) 2 src)), s1)"
    using FUNCTION_mono_rows [of Uint16_t Unsigned_short Y_short s1 src] w h stride src
    by (simp add: extract_Mono12_def)
  have "fst (call_extract Extract_Raw src s1) \<noteq>
      Inr (Y_array Y_short [frame_width (cam s1), frame_height (cam s1)] (rows_bytes (cam s1) 2 src))"
    by (auto simp: extract_Raw_def bindE_def get_cam_def of_option_def ret_def fault_def
        split: option.splits)
  with rows have "fst (call_extract Extract_Mono12 src s1) \<noteq> fst (call_extract Extract_Raw src s1)"
    by simp
  with ex sel fw w0 same rows show ?thesis by simp
qed


theorem mono12_decoder_witness:
  "fst (start_acquisition (demo_sdk ''Mono12'' 8) (state_open 2)) = Inr () \<and>
   \<not> acquiring (cam (state_open 2)) \<and>
   reported_encoding (demo_sdk ''Mono12'' 8) (state_open 2) = L ''Mono12'' \<and>
   extract_fn (cam (snd (start_acquisition (demo_sdk ''Mono12'' 8) (state_open 2)))) =
     Some Extract_Mono12 \<and>
   filter is_warn (new_events (state_open 2)
      (snd (start_acquisition (demo_sdk ''Mono12'' 8) (state_open 2)))) = [] \<and>
   call_extract Extract_Mono12 demo_frame
      (snd (start_acquisition (demo_sdk ''Mono12'' 8) (state_open 2))) =
     (Inr (Y_array Y_short [4, 2] demo_frame),
      snd (start_acquisition (demo_sdk ''Mono12'' 8) (state_open 2))) \<and>
   yorick_rows (Y_array Y_short [4, 2] demo_frame) = [[1, 2, 3, 4], [5, 6, 7, 8]] \<and>
   fst (call_extract Extract_Raw demo_frame
      (snd (start_acquisition (demo_sdk ''Mono12'' 8) (state_open 2)))) =
     Inr (Y_array Y_char [16] demo_frame)"
proof -
  let ?d = "demo_sdk ''Mono12'' 8"
  define s1 where "s1 = snd (start_acquisition ?d (state_open 2))"
  have ev: "fst (start_acquisition ?d (state_open 2)) = Inr () \<and>
     cam (snd (start_acquisition ?d (state_open 2))) =
       camera_open\<lparr>queue_length := 2, acquiring := True, buffer := 4100, buffer_size := 39,
                  frame_size := 16, frame_width := 4, frame_height := 2, row_stride := 8,
                  extract_fn := Some Extract_Mono12\<rparr>"
    by (simp add: run_defs)
  then have run: "start_acquisition ?d (state_open 2) = (Inr (), s1)"
    by (simp add: prod_eq_iff s1_def)
  have idle: "\<not> acquiring (cam (state_open 2))"
    by (simp add: state_open_def camera_open_def)
  have rep: "reported_encoding ?d (state_open 2) = L ''Mono12''"
    by (simp add: reported_encoding_def PIXEL_ENCODING_MAXLEN_def L_def reply_ok_def)
  have g: "frame_width (cam s1) = 4" "frame_height (cam s1) = 2" "row_stride (cam s1) = 8"
    "frame_size (cam s1) = 16"
    using ev by (simp_all add: s1_def)
  have l: "int (length demo_frame) = 16" by (simp add: demo_frame_def)
  have r: "rows_bytes (cam s1) 2 demo_frame = demo_frame"
    by (simp add: rows_bytes_def row_bytes_def g demo_frame_def upt_rec)
  have raw: "fst (call_extract Extract_Raw demo_frame s1) = Inr (Y_array Y_char [16] demo_frame)"
    by (simp add: extract_Raw_def get_cam_def bindE_def g to_size_def ret_def of_option_def
        memcpy_def ypush_def demo_frame_def)
  have y: "yorick_rows (Y_array Y_short [4, 2] demo_frame) = [[1, 2, 3, 4], [5, 6, 7, 8]]"
    by (simp add: demo_frame_def upt_rec)
  have hyps: "0 \<le> frame_width (cam s1)" "0 \<le> frame_height (cam s1)"
    "2 * frame_width (cam s1) \<le> row_stride (cam s1)" "row_stride (cam s1) \<le> LONG_MAX"
    "(frame_height (cam s1) - 1) * row_stride (cam s1) + 2 * frame_width (cam s1)
       \<le> int (length demo_frame)"
    "int (length demo_frame) \<le> LONG_MAX"
    by (simp_all add: g l LONG_MAX_def)
  have
    "extract_fn (cam s1) = Some Extract_Mono12"
    "filter is_warn (new_events (state_open 2) s1) = []"
    "call_extract Extract_Mono12 demo_frame s1 =
       (Inr (Y_array Y_short [frame_width (cam s1), frame_height (cam s1)]
          (rows_bytes (cam s1) 2 demo_frame)), s1)"
    using mono12_decoder [OF run idle rep hyps] by blast+
  then have
    "extract_fn (cam s1) = Some Extract_Mono12"
    "filter is_warn (new_events (state_open 2) s1) = []"
    "call_extract Extract_Mono12 demo_frame s1 = (Inr (Y_array Y_short [4, 2] demo_frame), s1)"
    by (simp_all add: g r)
  with ev idle rep raw y show ?thesis
    unfolding s1_def by (intro conjI) simp_all
qed

section \<open>The decoder of the encoding Mono12Packed\<close>

text \<open>
  Claim C2.  The frame holds, at the start of each row of \<open>row_stride\<close> bytes, the
  packing of the \<open>frame_width\<close> samples of that row, each sample a 12-bit value; the
  width and the height are at least 1.  Then \<open>extract_Mono12Packed\<close> returns the array
  of \<open>short\<close> of these dimensions whose elements are the samples, row after row, the
  last column of an odd width included; it only prints its name to \<open>stderr\<close>.
\<close>

theorem mono12packed_round_trip:
  assumes w: "1 \<le> frame_width (cam s)" and h: "1 \<le> frame_height (cam s)"
    and st: "0 \<le> row_stride (cam s)"
    and rows: "length rows = nat (frame_height (cam s))"
      "\<forall>r\<in>set rows. length r = nat (frame_width (cam s)) \<and> (\<forall>v\<in>set r. 0 \<le> v \<and> v < 4096)"
    and packed: "\<forall>y<length rows.
        take (length (pack_row (rows ! y))) (drop (y * nat (row_stride (cam s))) src) =
          pack_row (rows ! y)"
  shows "extract_Mono12Packed src s =
      (Inr (Y_array Y_short [frame_width (cam s), frame_height (cam s)]
              (short_bytes (concat rows))),
       s\<lparr>trace := trace s @ [Print ''extract_Mono12Packed'']\<rparr>) \<and>
    yorick_rows (Y_array Y_short [frame_width (cam s), frame_height (cam s)]
                   (short_bytes (concat rows))) = rows"
proof -
  define c W S H where "c = cam s" and "W = nat (frame_width (cam s))"
    and "S = nat (row_stride (cam s))" and "H = nat (frame_height (cam s))"
  have g: "frame_width c = int W" "row_stride c = int S" "frame_height c = int H"
    using w h st by (simp_all add: c_def W_def S_def H_def)
  define dst where "dst = ypush Y_short [frame_width c, frame_height c]"
  have ld: "length dst = 2 * (H * W)"
    by (simp add: dst_def ypush_def g nat_mult_distrib flip: of_nat_mult)
  have r1: "length rows = H" using rows(1) by (simp add: H_def)
  have r2: "\<forall>r\<in>set rows. length r = W \<and> (\<forall>v\<in>set r. 0 \<le> v \<and> v < 4096)"
    using rows(2) by (simp add: W_def)
  have pk: "\<forall>y<H. take (length (pack_row (rows ! y))) (drop (y * S) src) = pack_row (rows ! y)"
    using packed by (simp add: r1 S_def)
  have ow: "(frame_width c AND 1 \<noteq> 0) = odd W"
    by (simp only: odd_width_eq g even_of_nat)
  have "frame_width c AND NOT 1 = int (2 * (W div 2))"
    by (simp only: even_width_eq g) (simp add: zdiv_int)
  then have ewd: "frame_width c AND - 2 = int (2 * (W div 2))" by simp
  have "unpack_rows c (odd W) (int (2 * (W div 2))) src (int 0) dst =
      Some (take (2 * (0 * W)) dst @ short_bytes (concat (drop 0 rows)))"
    by (rule unpack_rows_rows [OF g r1 r2 pk ld]) simp
  then have u: "unpack_rows c (odd W) (int (2 * (W div 2))) src 0 dst =
      Some (short_bytes (concat rows))"
    by simp
  have run: "extract_Mono12Packed src s =
      (Inr (Y_array Y_short [frame_width c, frame_height c] (short_bytes (concat rows))),
       s\<lparr>trace := trace s @ [Print ''extract_Mono12Packed'']\<rparr>)"
    using u
    by (simp add: extract_Mono12Packed_def fprintf_stderr_def bindE_def get_cam_def Let_def
        c_def [symmetric] dst_def [symmetric] ow ewd of_option_def ret_def)
  have "\<forall>v\<in>set (concat rows). 0 \<le> v \<and> v < 65536"
    using r2 by fastforce
  then have "shorts_le (short_bytes (concat rows)) = concat rows"
    by (rule shorts_le_short_bytes)
  then have "yorick_rows (Y_array Y_short [frame_width c, frame_height c]
      (short_bytes (concat rows))) = rows"
    using chop_concat [of rows W] r1 r2 by (simp add: g)
  with run show ?thesis by (simp add: c_def)
qed


theorem mono12packed_round_trip_witness:
  "frame_width (cam (state_acquiring\<lparr>cam := (cam state_acquiring)\<lparr>frame_width := 5, row_stride := 9\<rparr>\<rparr>)) = 5 \<and>
   frame_height (cam (state_acquiring\<lparr>cam := (cam state_acquiring)\<lparr>frame_width := 5, row_stride := 9\<rparr>\<rparr>)) = 2 \<and>
   pack_row [1, 2, 3, 4, 5] = [0, 33, 0, 0, 67, 0, 0, 5] \<and>
   pack_row [4095, 0, 2748, 291, 1929] = [255, 15, 0, 171, 60, 18, 120, 9] \<and>
   fst (extract_Mono12Packed
          [0, 33, 0, 0, 67, 0, 0, 5, 170, 255, 15, 0, 171, 60, 18, 120, 9, 85]
          (state_acquiring\<lparr>cam := (cam state_acquiring)\<lparr>frame_width := 5, row_stride := 9\<rparr>\<rparr>)) =
     Inr (Y_array Y_short [5, 2]
            (short_bytes (concat [[1, 2, 3, 4, 5], [4095, 0, 2748, 291, 1929]]))) \<and>
   yorick_rows (Y_array Y_short [5, 2]
                  (short_bytes (concat [[1, 2, 3, 4, 5], [4095, 0, 2748, 291, 1929]]))) =
     [[1, 2, 3, 4, 5], [4095, 0, 2748, 291, 1929]] \<and>
   short_bytes [4095, 0, 2748, 291, 1929] = [255, 15, 0, 0, 188, 10, 35, 1, 137, 7]"
proof -
  define p where
    "p = state_acquiring\<lparr>cam := (cam state_acquiring)\<lparr>frame_width := 5, row_stride := 9\<rparr>\<rparr>"
  define src :: "u8 list" where
    "src = [0, 33, 0, 0, 67, 0, 0, 5, 170, 255, 15, 0, 171, 60, 18, 120, 9, 85]"
  define rows :: "int list list" where "rows = [[1, 2, 3, 4, 5], [4095, 0, 2748, 291, 1929]]"
  have g: "frame_width (cam p) = 5" "frame_height (cam p) = 2" "row_stride (cam p) = 9"
    by (simp_all add: p_def state_acquiring_def camera_open_def)
  have pk: "pack_row [1, 2, 3, 4, 5] = [0, 33, 0, 0, 67, 0, 0, 5]"
    "pack_row [4095, 0, 2748, 291, 1929] = [255, 15, 0, 171, 60, 18, 120, 9]"
    by simp_all
  have sb: "short_bytes [4095, 0, 2748, 291, 1929] = [255, 15, 0, 0, 188, 10, 35, 1, 137, 7]"
    by (simp add: short_bytes_simps)
  have h1: "1 \<le> frame_width (cam p)" "1 \<le> frame_height (cam p)" "0 \<le> row_stride (cam p)"
    "length rows = nat (frame_height (cam p))"
    by (simp_all add: g rows_def)
  have h2: "\<forall>r\<in>set rows. length r = nat (frame_width (cam p)) \<and> (\<forall>v\<in>set r. 0 \<le> v \<and> v < 4096)"
    by (simp add: g rows_def)
  have h3: "\<forall>y<length rows.
      take (length (pack_row (rows ! y))) (drop (y * nat (row_stride (cam p))) src) =
        pack_row (rows ! y)"
    by (simp add: g rows_def src_def pk less_Suc_eq numeral_2_eq_2)
  from mono12packed_round_trip [OF h1 h2 h3] have
    "fst (extract_Mono12Packed src p) = Inr (Y_array Y_short [5, 2] (short_bytes (concat rows)))"
    "yorick_rows (Y_array Y_short [5, 2] (short_bytes (concat rows))) = rows"
    by (simp_all add: g)
  then have
    "fst (extract_Mono12Packed
          [0, 33, 0, 0, 67, 0, 0, 5, 170, 255, 15, 0, 171, 60, 18, 120, 9, 85]
          (state_acquiring\<lparr>cam := (cam state_acquiring)\<lparr>frame_width := 5, row_stride := 9\<rparr>\<rparr>)) =
     Inr (Y_array Y_short [5, 2]
            (short_bytes (concat [[1, 2, 3, 4, 5], [4095, 0, 2748, 291, 1929]])))"
    "yorick_rows (Y_array Y_short [5, 2]
                  (short_bytes (concat [[1, 2, 3, 4, 5], [4095, 0, 2748, 291, 1929]]))) =
     [[1, 2, 3, 4, 5], [4095, 0, 2748, 291, 1929]]"
    by (simp_all only: p_def src_def rows_def)
  note res = this
  note gp = g(1,2) [unfolded p_def]
  show ?thesis
    by (intro conjI) (rule gp pk sb res)+
qed

end
